theory Spec2Isabelle
  imports
    Main
    "HOL-Library.Sublist"
    "HOL-Library.Char_ord"
    "HOL-Library.List_Lexorder"
    "HOL-Library.Multiset"
begin

section \<open>Strings\<close>

text \<open>
  Python strings are modelled as \<open>string\<close>, a list of 8-bit characters: the strings
  whose characters are the code points 0 to 255. The methods of \<^verbatim>\<open>str\<close> the two
  clients use are \<^verbatim>\<open>lower\<close>, \<^verbatim>\<open>replace(c, '')\<close> for a one-character \<open>c\<close>,
  \<^verbatim>\<open>startswith\<close> and the substring test \<^verbatim>\<open>in\<close>. Strings are compared character
  by character, lexicographically, as Python compares \<^verbatim>\<open>str\<close> values.

  On these code points \<^verbatim>\<open>str.lower()\<close> works character by character and keeps the
  length: the letters \<open>A\<close> to \<open>Z\<close> (65 to 90) and the capital letters 192 to 222, all
  but the multiplication sign 215, move up by 32 to their small letters; every other
  code point below 256 is left as it is (among them the small letters 181, 223 and
  255, which no capital below 256 maps to). Beyond 255 the case mapping can change the
  length and depend on the context; such strings are outside the model.
\<close>

definition lower_char :: "char \<Rightarrow> char" where
  "lower_char c =
     (let n = (of_char c :: nat)
      in if (65 \<le> n \<and> n \<le> 90) \<or> (192 \<le> n \<and> n \<le> 222 \<and> n \<noteq> 215)
         then char_of (n + 32) else c)"

definition str_lower :: "string \<Rightarrow> string" where
  "str_lower s = map lower_char s"

text \<open>\<^verbatim>\<open>s.replace(c, '')\<close>: every occurrence of the character is removed.\<close>

definition str_remove :: "char \<Rightarrow> string \<Rightarrow> string" where
  "str_remove c s = filter (\<lambda>x. x \<noteq> c) s"

text \<open>\<^verbatim>\<open>s.startswith(p)\<close> is \<open>prefix p s\<close>. \<^verbatim>\<open>needle in hay\<close>:\<close>

fun str_contains :: "string \<Rightarrow> string \<Rightarrow> bool" where
  "str_contains needle [] = (needle = [])"
| "str_contains needle (c # cs) = (prefix needle (c # cs) \<or> str_contains needle cs)"

section \<open>The NuGet client: \<^verbatim>\<open>devflow/tools/nuget_api.py\<close>\<close>

subsection \<open>\<^verbatim>\<open>NuGetAPI._normalize_framework\<close>\<close>

definition normalize_framework :: "string \<Rightarrow> string" where
  "normalize_framework framework =
     (let framework = str_remove (CHR ''-'') (str_remove (CHR ''.'') (str_lower framework))
      in if prefix ''net'' framework then framework else ''net'' @ framework)"

text \<open>
  The same function on strings of arbitrary code points, as lists of natural numbers,
  with \<^verbatim>\<open>str.lower\<close> as a parameter: beyond 255 the interpreter's case mapping is a
  table of the Unicode database, may give several characters for one, and treats the
  capital sigma by its context. The dot is 46, the hyphen 45, and \<open>net\<close> is 110, 101,
  116. \<open>lower_latin1\<close> is \<open>str_lower\<close> on code points.
\<close>

definition normalize_with :: "(nat list \<Rightarrow> nat list) \<Rightarrow> nat list \<Rightarrow> nat list" where
  "normalize_with lower framework =
     (let framework = filter (\<lambda>x. x \<noteq> 45) (filter (\<lambda>x. x \<noteq> 46) (lower framework))
      in if prefix [110, 101, 116] framework then framework else [110, 101, 116] @ framework)"

definition lower_latin1 :: "nat list \<Rightarrow> nat list" where
  "lower_latin1 s = map (\<lambda>n. of_char (lower_char (char_of n))) s"

subsection \<open>\<^verbatim>\<open>NuGetAPI.FRAMEWORK_COMPATIBILITY\<close>\<close>

text \<open>
  The dictionary literal, in its source order (a Python dict iterates in insertion
  order). The two list values that several rows share are named first.
\<close>

definition chain_net45 :: "string list" where
  "chain_net45 = [''net45'', ''net40'', ''net35'', ''net20'']"

definition chain_net48 :: "string list" where
  "chain_net48 =
     [''net48'', ''net472'', ''net471'', ''net47'', ''net462'', ''net461'', ''net46'',
      ''net452'', ''net451'', ''net45'', ''net40'', ''net35'', ''net20'']"

definition FRAMEWORK_COMPATIBILITY :: "(string \<times> string list) list" where
  "FRAMEWORK_COMPATIBILITY =
     [(''netstandard1.0'', chain_net45),
      (''netstandard1.1'', chain_net45),
      (''netstandard1.2'', chain_net45),
      (''netstandard1.3'', chain_net45),
      (''netstandard1.4'', chain_net45),
      (''netstandard1.5'', chain_net45),
      (''netstandard1.6'', chain_net45),
      (''netstandard2.0'', chain_net48),
      (''netstandard2.1'', chain_net48),
      (''net6.0'', chain_net48),
      (''net7.0'', chain_net48),
      (''net8.0'', chain_net48),
      (''net48'', chain_net48),
      (''net472'',
         [''net472'', ''net471'', ''net47'', ''net462'', ''net461'', ''net46'',
          ''net452'', ''net451'', ''net45'', ''net40'', ''net35'', ''net20'']),
      (''net471'',
         [''net471'', ''net47'', ''net462'', ''net461'', ''net46'',
          ''net452'', ''net451'', ''net45'', ''net40'', ''net35'', ''net20'']),
      (''net47'',
         [''net47'', ''net462'', ''net461'', ''net46'',
          ''net452'', ''net451'', ''net45'', ''net40'', ''net35'', ''net20'']),
      (''net462'',
         [''net462'', ''net461'', ''net46'',
          ''net452'', ''net451'', ''net45'', ''net40'', ''net35'', ''net20'']),
      (''net461'',
         [''net461'', ''net46'',
          ''net452'', ''net451'', ''net45'', ''net40'', ''net35'', ''net20'']),
      (''net46'',
         [''net46'',
          ''net452'', ''net451'', ''net45'', ''net40'', ''net35'', ''net20'']),
      (''net452'',
         [''net452'', ''net451'', ''net45'', ''net40'', ''net35'', ''net20'']),
      (''net451'',
         [''net451'', ''net45'', ''net40'', ''net35'', ''net20'']),
      (''net45'', chain_net45),
      (''net40'', [''net40'', ''net35'', ''net20'']),
      (''net35'', [''net35'', ''net20'']),
      (''net20'', [''net20''])]"

subsection \<open>\<^verbatim>\<open>NuGetAPI._is_framework_compatible\<close>\<close>

text \<open>
  The loop over \<^verbatim>\<open>FRAMEWORK_COMPATIBILITY.items()\<close>, returning at the first row that
  lists the target and has a supported element; \<^verbatim>\<open>any(f in supported for f in row)\<close>
  is \<open>list_ex\<close>.
\<close>

fun compat_loop :: "(string \<times> string list) list \<Rightarrow> string \<Rightarrow> string set \<Rightarrow> bool" where
  "compat_loop [] target supported = False"
| "compat_loop ((framework, compatible_frameworks) # rest) target supported =
     (if target \<in> set compatible_frameworks
      then (if list_ex (\<lambda>f. f \<in> supported) compatible_frameworks then True
            else compat_loop rest target supported)
      else compat_loop rest target supported)"

definition is_framework_compatible :: "string \<Rightarrow> string set \<Rightarrow> bool" where
  "is_framework_compatible target supported =
     (let target = normalize_framework target
      in if target \<in> supported then True
         else compat_loop FRAMEWORK_COMPATIBILITY target supported)"

subsection \<open>Exceptions and the result envelope\<close>

text \<open>
  A call either returns a value (\<open>Inr\<close>) or raises (\<open>Inl\<close>). The exceptions that
  occur: \<^verbatim>\<open>requests.exceptions.RequestException\<close> with its message, raised by
  \<^verbatim>\<open>session.get\<close> and \<^verbatim>\<open>raise_for_status\<close>;
  \<^verbatim>\<open>packaging.version.InvalidVersion\<close> with the rejected string; and
  \<^verbatim>\<open>TypeError\<close>, which the interpreter raises when \<^verbatim>\<open>Version\<close> is given
  \<^verbatim>\<open>None\<close> and when \<^verbatim>\<open>None\<close> is compared by \<^verbatim>\<open><\<close>.
\<close>

datatype py_exception =
    RequestException string
  | InvalidVersion string
  | TypeError

text \<open>\<^verbatim>\<open>str(e)\<close>. The interpreter's text for a \<^verbatim>\<open>TypeError\<close> is not modelled.\<close>

fun str_exc :: "py_exception \<Rightarrow> string" where
  "str_exc (RequestException m) = m"
| "str_exc (InvalidVersion v) = ''Invalid version: '' @ [CHR 0x27] @ v @ [CHR 0x27]"
| "str_exc TypeError = ''TypeError''"

text \<open>
  The dictionaries every public operation returns: \<^verbatim>\<open>{"status": "success", ...}\<close> with
  the operation's fields, or \<^verbatim>\<open>{"status": "error", "message": ...}\<close>.
\<close>

datatype 'a envelope = Success 'a | Error string

fun status :: "'a envelope \<Rightarrow> string" where
  "status (Success _) = ''success''"
| "status (Error _) = ''error''"

subsection \<open>The registry's answer\<close>

text \<open>
  The JSON of the registration index, as far as the client reads it:
  \<^verbatim>\<open>data["items"]\<close> is a list of pages, a page's \<^verbatim>\<open>"items"\<close> a list of version
  entries, and an entry's \<^verbatim>\<open>"catalogEntry"\<close> carries the fields below. A key read
  with \<^verbatim>\<open>.get(key)\<close> is an option (\<open>None\<close> when the key is absent); a missing list
  is the empty list, as the \<^verbatim>\<open>.get(key, [])\<close> defaults make it.
\<close>

record dependency_group =
  targetFramework :: "string option"

record catalog_entry =
  version :: "string option"
  published :: "string option"
  downloads :: "int option"
  dependencyGroups :: "dependency_group list"

type_synonym catalog = "catalog_entry list list"

text \<open>
  The HTTP exchange \<^verbatim>\<open>session.get(url); raise_for_status(); response.json()\<close> is the
  environment's: it either raises a \<^verbatim>\<open>RequestException\<close> with a message (\<open>Inl\<close>)
  or yields the catalog (\<open>Inr\<close>).
\<close>

type_synonym response = "string + catalog"

subsection \<open>\<^verbatim>\<open>NuGetAPI._get_supported_frameworks\<close>\<close>

definition get_supported_frameworks :: "dependency_group list \<Rightarrow> string set" where
  "get_supported_frameworks dependency_groups =
     foldl (\<lambda>frameworks group.
              let framework = (case targetFramework group of None \<Rightarrow> [] | Some f \<Rightarrow> f)
              in if framework \<noteq> [] then insert (normalize_framework framework) frameworks
                 else frameworks)
           {} dependency_groups"

subsection \<open>Sorting with \<^verbatim>\<open>reverse=True\<close>\<close>

text \<open>
  \<^verbatim>\<open>list.sort(key=k, reverse=True)\<close> and \<^verbatim>\<open>sorted(xs, key=k, reverse=True)\<close>
  first compute the key of every element (an exception of \<open>k\<close> propagates), then sort
  stably in descending order of the keys: elements with equal keys keep their order,
  which CPython obtains by reversing the list, sorting it stably ascending, and
  reversing the result.
\<close>

definition sort_reverse :: "('a \<Rightarrow> 'k::linorder) \<Rightarrow> 'a list \<Rightarrow> 'a list" where
  "sort_reverse k xs = rev (sort_key k (rev xs))"

fun keys_of :: "('a \<Rightarrow> py_exception + 'k) \<Rightarrow> 'a list \<Rightarrow> py_exception + ('k \<times> 'a) list" where
  "keys_of k [] = Inr []"
| "keys_of k (x # xs) =
     (case k x of
        Inl e \<Rightarrow> Inl e
      | Inr kx \<Rightarrow> (case keys_of k xs of Inl e \<Rightarrow> Inl e | Inr ks \<Rightarrow> Inr ((kx, x) # ks)))"

definition py_sort_reverse ::
  "('a \<Rightarrow> py_exception + 'k::linorder) \<Rightarrow> 'a list \<Rightarrow> py_exception + 'a list" where
  "py_sort_reverse k xs =
     (case keys_of k xs of
        Inl e \<Rightarrow> Inl e
      | Inr ks \<Rightarrow> Inr (map snd (sort_reverse fst ks)))"

subsection \<open>\<^verbatim>\<open>packaging.version.Version\<close>\<close>

text \<open>
  The parser of the \<^verbatim>\<open>packaging\<close> library is not part of the repository: it is the
  parameter \<open>parse\<close>, which maps a string to its parsed version, of a linearly ordered
  type, or to \<open>None\<close> where the library raises \<^verbatim>\<open>InvalidVersion\<close>.
\<close>

definition Version :: "(string \<Rightarrow> 'v option) \<Rightarrow> string \<Rightarrow> py_exception + 'v" where
  "Version parse s = (case parse s of None \<Rightarrow> Inl (InvalidVersion s) | Some p \<Rightarrow> Inr p)"

subsection \<open>\<^verbatim>\<open>NuGetAPI.get_compatible_versions\<close>\<close>

record version_info =
  vi_version :: string
  vi_published :: "string option"
  vi_downloads :: int
  vi_supported_frameworks :: "string set"

record compatible_versions_result =
  cv_package_id :: string
  cv_target_framework :: string
  cv_compatible_versions :: "string list"
  cv_latest_compatible :: "string option"
  cv_version_details :: "version_info list"

text \<open>
  The body of the inner loop for one version entry, on the two accumulators.
  \<^verbatim>\<open>version_data.get("version")\<close> is \<^verbatim>\<open>None\<close> when the key is absent, and
  \<^verbatim>\<open>Version(None)\<close> raises \<^verbatim>\<open>TypeError\<close>. The \<^verbatim>\<open>try\<close> around
  \<^verbatim>\<open>Version(version)\<close> catches \<^verbatim>\<open>InvalidVersion\<close> only (\<^verbatim>\<open>continue\<close>); any
  other exception leaves the loops.
\<close>

definition process_entry ::
  "(string \<Rightarrow> 'v option) \<Rightarrow> string \<Rightarrow> catalog_entry \<Rightarrow>
   string list \<times> version_info list \<Rightarrow>
   py_exception + (string list \<times> version_info list)" where
  "process_entry parse target version_data acc =
     (case version version_data of
        None \<Rightarrow> Inl TypeError
      | Some v \<Rightarrow>
          (case Version parse v of
             Inl (InvalidVersion _) \<Rightarrow> Inr acc
           | Inl e \<Rightarrow> Inl e
           | Inr _ \<Rightarrow>
               (let framework_groups = dependencyGroups version_data;
                    supported_frameworks = get_supported_frameworks framework_groups
                in if is_framework_compatible target supported_frameworks
                   then Inr (fst acc @ [v],
                             snd acc @
                               [\<lparr>vi_version = v,
                                 vi_published = published version_data,
                                 vi_downloads =
                                   (case downloads version_data of None \<Rightarrow> 0 | Some d \<Rightarrow> d),
                                 vi_supported_frameworks = supported_frameworks\<rparr>])
                   else Inr acc)))"

fun process_entries ::
  "(string \<Rightarrow> 'v option) \<Rightarrow> string \<Rightarrow> catalog_entry list \<Rightarrow>
   string list \<times> version_info list \<Rightarrow>
   py_exception + (string list \<times> version_info list)" where
  "process_entries parse target [] acc = Inr acc"
| "process_entries parse target (version_entry # rest) acc =
     (case process_entry parse target version_entry acc of
        Inl e \<Rightarrow> Inl e
      | Inr acc' \<Rightarrow> process_entries parse target rest acc')"

fun process_pages ::
  "(string \<Rightarrow> 'v option) \<Rightarrow> string \<Rightarrow> catalog \<Rightarrow>
   string list \<times> version_info list \<Rightarrow>
   py_exception + (string list \<times> version_info list)" where
  "process_pages parse target [] acc = Inr acc"
| "process_pages parse target (entry # rest) acc =
     (case process_entries parse target entry acc of
        Inl e \<Rightarrow> Inl e
      | Inr acc' \<Rightarrow> process_pages parse target rest acc')"

text \<open>The \<^verbatim>\<open>try\<close> block: everything up to \<^verbatim>\<open>return result\<close>.\<close>

definition compatible_versions_body ::
  "(string \<Rightarrow> 'v::linorder option) \<Rightarrow> string \<Rightarrow> string \<Rightarrow> response \<Rightarrow>
   py_exception + compatible_versions_result" where
  "compatible_versions_body parse package_id target_framework response =
     (let target_framework = normalize_framework target_framework
      in case response of
           Inl m \<Rightarrow> Inl (RequestException m)
         | Inr data \<Rightarrow>
             (case process_pages parse target_framework data ([], []) of
                Inl e \<Rightarrow> Inl e
              | Inr (compatible_versions, version_details) \<Rightarrow>
                  (case py_sort_reverse (Version parse) compatible_versions of
                     Inl e \<Rightarrow> Inl e
                   | Inr compatible_versions \<Rightarrow>
                       (case py_sort_reverse (\<lambda>x. Version parse (vi_version x)) version_details of
                          Inl e \<Rightarrow> Inl e
                        | Inr version_details \<Rightarrow>
                            Inr \<lparr>cv_package_id = package_id,
                                 cv_target_framework = target_framework,
                                 cv_compatible_versions = compatible_versions,
                                 cv_latest_compatible =
                                   (case compatible_versions of
                                      [] \<Rightarrow> None
                                    | v # _ \<Rightarrow> Some v),
                                 cv_version_details = version_details\<rparr>))))"

text \<open>
  The two handlers: \<^verbatim>\<open>except RequestException\<close>, then \<^verbatim>\<open>except Exception\<close>.
  The argument \<^verbatim>\<open>current_version\<close> is not read.
\<close>

definition get_compatible_versions ::
  "(string \<Rightarrow> 'v::linorder option) \<Rightarrow> string \<Rightarrow> string \<Rightarrow> string option \<Rightarrow> response \<Rightarrow>
   py_exception + compatible_versions_result envelope" where
  "get_compatible_versions parse package_id target_framework current_version response =
     (case compatible_versions_body parse package_id target_framework response of
        Inr result \<Rightarrow> Inr (Success result)
      | Inl (RequestException m) \<Rightarrow>
          Inr (Error (''Failed to fetch compatible versions: '' @ m))
      | Inl e \<Rightarrow> Inr (Error (''Unexpected error: '' @ str_exc e)))"

subsection \<open>\<^verbatim>\<open>NuGetAPI.get_package_versions\<close>\<close>

record version_summary =
  vs_version :: "string option"
  vs_published :: "string option"
  vs_downloads :: int

record package_versions_result =
  pv_package_id :: string
  pv_versions :: "version_summary list"

text \<open>The two nested loops that append one dictionary per version entry.\<close>

definition collect_versions :: "catalog \<Rightarrow> version_summary list" where
  "collect_versions data =
     foldl (\<lambda>versions entry.
              foldl (\<lambda>versions version_data.
                       versions @
                         [\<lparr>vs_version = version version_data,
                           vs_published = published version_data,
                           vs_downloads =
                             (case downloads version_data of None \<Rightarrow> 0 | Some d \<Rightarrow> d)\<rparr>])
                    versions entry)
           [] data"

text \<open>
  \<^verbatim>\<open>sorted(versions, key=lambda x: x["version"], reverse=True)\<close>. A key is a string
  or \<^verbatim>\<open>None\<close>. Strings compare lexicographically; \<^verbatim>\<open><\<close> with \<^verbatim>\<open>None\<close> on
  either side raises \<^verbatim>\<open>TypeError\<close>. Sorting two or more elements compares each of
  them at least once, and sorting fewer than two compares nothing.
\<close>

definition sorted_by_version_reverse ::
  "version_summary list \<Rightarrow> py_exception + version_summary list" where
  "sorted_by_version_reverse versions =
     (if 2 \<le> length versions \<and> list_ex (\<lambda>x. vs_version x = None) versions
      then Inl TypeError
      else Inr (sort_reverse (\<lambda>x. case vs_version x of None \<Rightarrow> [] | Some v \<Rightarrow> v) versions))"

definition package_versions_body ::
  "string \<Rightarrow> response \<Rightarrow> py_exception + package_versions_result" where
  "package_versions_body package_id response =
     (case response of
        Inl m \<Rightarrow> Inl (RequestException m)
      | Inr data \<Rightarrow>
          (case sorted_by_version_reverse (collect_versions data) of
             Inl e \<Rightarrow> Inl e
           | Inr versions \<Rightarrow> Inr \<lparr>pv_package_id = package_id, pv_versions = versions\<rparr>))"

text \<open>The only handler is \<^verbatim>\<open>except requests.exceptions.RequestException\<close>.\<close>

definition get_package_versions ::
  "string \<Rightarrow> response \<Rightarrow> py_exception + package_versions_result envelope" where
  "get_package_versions package_id response =
     (case package_versions_body package_id response of
        Inr result \<Rightarrow> Inr (Success result)
      | Inl (RequestException m) \<Rightarrow> Inr (Error (''Failed to fetch versions: '' @ m))
      | Inl e \<Rightarrow> Inl e)"

section \<open>The search client: \<^verbatim>\<open>devflow/tools/google_search.py\<close>\<close>

subsection \<open>Regular expressions\<close>

text \<open>
  The three patterns of the module are sequences of literals, greedy repetitions of
  \<^verbatim>\<open>\d\<close> (\<^verbatim>\<open>\d+\<close>, \<^verbatim>\<open>\d{4}\<close>, \<^verbatim>\<open>\d{4,7}\<close>) and one negative lookahead
  for a literal. \<open>Digits lo hi\<close> is \<^verbatim>\<open>\d{lo,hi}\<close>, with \<open>hi = None\<close> for no upper
  bound. \<^verbatim>\<open>\d\<close> is a decimal digit \<open>0\<close> to \<open>9\<close>; the decimal digits of other
  scripts, which \<^verbatim>\<open>\d\<close> also matches in a Python \<^verbatim>\<open>str\<close>, have no counterpart in
  8-bit characters.
\<close>

definition is_digit :: "char \<Rightarrow> bool" where
  "is_digit c = (c \<in> set ''0123456789'')"

datatype rx = Lit string | Digits nat "nat option" | NotAhead string

text \<open>
  The backtracking matcher of \<^verbatim>\<open>re\<close>. A pattern is matched at the start of a
  string; the result is the number of characters of the first match in backtracking
  order, or \<open>None\<close>. \<open>try_down f lo n\<close> tries the repetition counts \<open>n\<close>, \<open>n - 1\<close>,
  down to \<open>lo\<close>, and takes the first for which the rest of the pattern matches: a
  greedy repetition takes as many digits as there are, and gives them back one at a
  time.
\<close>

fun try_down :: "(nat \<Rightarrow> nat option) \<Rightarrow> nat \<Rightarrow> nat \<Rightarrow> nat option" where
  "try_down f lo 0 = (if lo = 0 then f 0 else None)"
| "try_down f lo (Suc n) =
     (if Suc n < lo then None
      else case f (Suc n) of Some r \<Rightarrow> Some r | None \<Rightarrow> try_down f lo n)"

fun rx_step :: "rx \<Rightarrow> (string \<Rightarrow> nat option) \<Rightarrow> string \<Rightarrow> nat option" where
  "rx_step (Lit l) k s =
     (if prefix l s then map_option (\<lambda>m. length l + m) (k (drop (length l) s)) else None)"
| "rx_step (Digits lo hi) k s =
     (let run = length (takeWhile is_digit s);
          top = (case hi of None \<Rightarrow> run | Some h \<Rightarrow> min h run)
      in try_down (\<lambda>n. map_option (\<lambda>m. n + m) (k (drop n s))) lo top)"
| "rx_step (NotAhead l) k s = (if prefix l s then None else k s)"

primrec rx_match :: "rx list \<Rightarrow> string \<Rightarrow> nat option" where
  "rx_match [] = (\<lambda>s. Some 0)"
| "rx_match (r # rs) = rx_step r (rx_match rs)"

text \<open>
  \<^verbatim>\<open>re.findall(pattern, text)\<close> for a pattern without groups: the matches from left to
  right, each search starting where the previous match ended, and one character further
  where there is no match. None of the three patterns matches the empty string.
\<close>

fun findall :: "rx list \<Rightarrow> string \<Rightarrow> string list" where
  "findall p [] = []"
| "findall p (c # cs) =
     (case rx_match p (c # cs) of
        None \<Rightarrow> findall p cs
      | Some n \<Rightarrow> take n (c # cs) # findall p (drop (n - 1) cs))"

text \<open>\<^verbatim>\<open>r'\d+\.\d+\.\d+'\<close>, \<^verbatim>\<open>r'\d+\.\d+(?!\.)'\<close> and \<^verbatim>\<open>r'CVE-\d{4}-\d{4,7}'\<close>.\<close>

definition version3_pattern :: "rx list" where
  "version3_pattern = [Digits 1 None, Lit ''.'', Digits 1 None, Lit ''.'', Digits 1 None]"

definition version2_pattern :: "rx list" where
  "version2_pattern = [Digits 1 None, Lit ''.'', Digits 1 None, NotAhead ''.'']"

definition cve_pattern :: "rx list" where
  "cve_pattern = [Lit ''CVE-'', Digits 4 (Some 4), Lit ''-'', Digits 4 (Some 7)]"

subsection \<open>Search results\<close>

text \<open>
  One element of the list the \<^verbatim>\<open>search\<close> operation returns under \<^verbatim>\<open>"results"\<close>;
  the extractors read these three keys, never \<^verbatim>\<open>"pagemap"\<close>.
\<close>

record search_result =
  title :: string
  link :: string
  snippet :: string

text \<open>The f-string \<^verbatim>\<open>f"{result['title']} {result['snippet']}"\<close>.\<close>

definition result_text :: "search_result \<Rightarrow> string" where
  "result_text result = title result @ '' '' @ snippet result"

subsection \<open>\<^verbatim>\<open>GoogleSearchAPI.extract_versions\<close>\<close>

text \<open>
  \<^verbatim>\<open>versions\<close> is a Python set. \<^verbatim>\<open>sorted(list(versions), reverse=True)\<close> sorts its
  elements, which are distinct, in descending order of \<^verbatim>\<open>str\<close> comparison: the
  lexicographic order of the characters.
\<close>

definition extract_versions :: "search_result list \<Rightarrow> string \<Rightarrow> string \<Rightarrow> string list" where
  "extract_versions search_results package_name target_framework =
     (let versions =
            foldl (\<lambda>versions result.
                     let text = str_lower (result_text result)
                     in if str_contains (str_lower package_name) text \<and>
                           str_contains (str_lower target_framework) text
                        then (versions \<union> set (findall version3_pattern text))
                               \<union> set (findall version2_pattern text)
                        else versions)
                  {} search_results
      in rev (sorted_list_of_set versions))"

subsection \<open>\<^verbatim>\<open>GoogleSearchAPI._extract_severity\<close>\<close>

definition extract_severity :: "string \<Rightarrow> string" where
  "extract_severity text =
     (let text = str_lower text
      in if str_contains ''critical'' text then ''critical''
         else if str_contains ''high'' text then ''high''
         else if str_contains ''medium'' text then ''medium''
         else if str_contains ''low'' text then ''low''
         else ''unknown'')"

subsection \<open>\<^verbatim>\<open>GoogleSearchAPI._extract_vulnerability_info\<close>\<close>

record vulnerability =
  vuln_id :: string
  vuln_source :: string
  vuln_description :: string
  vuln_severity :: string

record vulnerability_info =
  has_vulnerabilities :: bool
  vulnerabilities :: "vulnerability list"

text \<open>The arguments \<^verbatim>\<open>package_name\<close> and \<^verbatim>\<open>version\<close> are not read.\<close>

definition extract_vulnerability_info ::
  "search_result list \<Rightarrow> string \<Rightarrow> string \<Rightarrow> vulnerability_info" where
  "extract_vulnerability_info results package_name version_arg =
     (let vulns =
            foldl (\<lambda>vulns result.
                     let text = result_text result;
                         cve_matches = findall cve_pattern text
                     in if cve_matches \<noteq> []
                        then foldl (\<lambda>vulns cve.
                                      vulns @
                                        [\<lparr>vuln_id = cve,
                                          vuln_source = link result,
                                          vuln_description = snippet result,
                                          vuln_severity = extract_severity text\<rparr>])
                                   vulns cve_matches
                        else vulns)
                  [] results
      in \<lparr>has_vulnerabilities = (length vulns > 0), vulnerabilities = vulns\<rparr>)"

subsection \<open>\<^verbatim>\<open>GoogleSearchAPI.JAVA_RUNTIME_COMPATIBILITY\<close>\<close>

definition JAVA_RUNTIME_COMPATIBILITY :: "(string \<times> string list) list" where
  "JAVA_RUNTIME_COMPATIBILITY =
     [(''java21'', [''java20'', ''java19'', ''java18'', ''java17'', ''java16'', ''java15'',
                    ''java14'', ''java13'', ''java12'', ''java11'', ''java8'']),
      (''java20'', [''java19'', ''java18'', ''java17'', ''java16'', ''java15'',
                    ''java14'', ''java13'', ''java12'', ''java11'', ''java8'']),
      (''java19'', [''java18'', ''java17'', ''java16'', ''java15'',
                    ''java14'', ''java13'', ''java12'', ''java11'', ''java8'']),
      (''java18'', [''java17'', ''java16'', ''java15'',
                    ''java14'', ''java13'', ''java12'', ''java11'', ''java8'']),
      (''java17'', [''java16'', ''java15'',
                    ''java14'', ''java13'', ''java12'', ''java11'', ''java8'']),
      (''java16'', [''java15'', ''java14'', ''java13'', ''java12'', ''java11'', ''java8'']),
      (''java15'', [''java14'', ''java13'', ''java12'', ''java11'', ''java8'']),
      (''java14'', [''java13'', ''java12'', ''java11'', ''java8'']),
      (''java13'', [''java12'', ''java11'', ''java8'']),
      (''java12'', [''java11'', ''java8'']),
      (''java11'', [''java8'']),
      (''java8'', [''java8''])]"

subsection \<open>\<^verbatim>\<open>GoogleSearchAPI._extract_java_compatibility_info\<close>\<close>

text \<open>
  The chain check at the end of the function (source lines 477 to 483), which the
  specification calls \<open>is_compatible_chain\<close>: the loop over the supported runtimes that
  stops at the first one listed under the lower-cased target;
  \<^verbatim>\<open>JAVA_RUNTIME_COMPATIBILITY.get(target_runtime, [])\<close> is the empty list for a
  target that is not a key. The supported runtimes are a Python set: the list is the
  order in which the loop happens to visit them.
\<close>

fun chain_loop :: "string list \<Rightarrow> string list \<Rightarrow> bool" where
  "chain_loop [] chain = False"
| "chain_loop (runtime # rest) chain =
     (if runtime \<in> set chain then True else chain_loop rest chain)"

definition is_compatible_chain :: "string \<Rightarrow> string list \<Rightarrow> bool" where
  "is_compatible_chain target_runtime supported_runtimes =
     (let target_runtime = str_lower target_runtime
      in chain_loop supported_runtimes
           (case map_of JAVA_RUNTIME_COMPATIBILITY target_runtime of
              None \<Rightarrow> []
            | Some chain \<Rightarrow> chain))"

record evidence =
  ev_source :: string
  ev_text :: string

record java_compatibility_info =
  is_compatible :: bool
  evidence_list :: "evidence list"
  recommendations :: "evidence list"
  supported_runtimes :: "string list"

text \<open>
  The loop over the results, on the accumulator \<^verbatim>\<open>compatibility_info\<close> with
  \<^verbatim>\<open>supported_runtimes\<close> as a set; then the chain check, run only when no result
  gave direct evidence; then the set as a sorted list.
\<close>

definition java_result_step ::
  "string \<Rightarrow> string \<Rightarrow> bool \<times> evidence list \<times> evidence list \<times> string set \<Rightarrow> search_result \<Rightarrow>
   bool \<times> evidence list \<times> evidence list \<times> string set" where
  "java_result_step package_name target_runtime info result =
     (case info of (compatible, evid, recs, runtimes) \<Rightarrow>
        let text = str_lower (result_text result)
        in if str_contains (str_lower package_name) text
           then
             let runtimes =
                   foldl (\<lambda>rts runtime. if str_contains runtime text then insert runtime rts else rts)
                         runtimes (map fst JAVA_RUNTIME_COMPATIBILITY);
                 hit = (str_contains (str_lower target_runtime) text \<and>
                        list_ex (\<lambda>indicator. str_contains indicator text)
                          [''compatible'', ''supported'', ''works with'', ''runs on'']);
                 item = \<lparr>ev_source = link result, ev_text = snippet result\<rparr>
             in (if hit then True else compatible,
                 if hit then evid @ [item] else evid,
                 if str_contains ''recommend'' text \<or> str_contains ''suggest'' text
                 then recs @ [item] else recs,
                 runtimes)
           else info)"

definition extract_java_compatibility_info ::
  "search_result list \<Rightarrow> string \<Rightarrow> string \<Rightarrow> java_compatibility_info" where
  "extract_java_compatibility_info results package_name target_runtime =
     (case foldl (java_result_step package_name target_runtime) (False, [], [], {}) results of
        (compatible, evid, recs, runtimes) \<Rightarrow>
          \<lparr>is_compatible =
             (if \<not> compatible
              then is_compatible_chain target_runtime (sorted_list_of_set runtimes)
              else compatible),
           evidence_list = evid,
           recommendations = recs,
           supported_runtimes = sorted_list_of_set runtimes\<rparr>)"

section \<open>Vocabulary of the properties\<close>

text \<open>
  The set of frameworks an entry declares: the target framework of each of its
  dependency groups that has a non-empty one, normalized.
\<close>

definition supported_frameworks :: "catalog_entry \<Rightarrow> string set" where
  "supported_frameworks e =
     set (map normalize_framework
            (filter (\<lambda>f. f \<noteq> [])
               (concat (map (\<lambda>g. case targetFramework g of None \<Rightarrow> [] | Some f \<Rightarrow> [f])
                            (dependencyGroups e)))))"

text \<open>An entry whose version is a string that the parser accepts.\<close>

definition valid_version :: "(string \<Rightarrow> 'v option) \<Rightarrow> catalog_entry \<Rightarrow> bool" where
  "valid_version parse e = (case version e of None \<Rightarrow> False | Some v \<Rightarrow> parse v \<noteq> None)"

text \<open>
  The version strings of the entries, in catalog order, that parse and whose declared
  frameworks are compatible with the normalized target.
\<close>

definition matching :: "(string \<Rightarrow> 'v option) \<Rightarrow> string \<Rightarrow> catalog \<Rightarrow> string list" where
  "matching parse target data =
     concat (map (\<lambda>e. case version e of None \<Rightarrow> [] | Some v \<Rightarrow> [v])
       (filter (\<lambda>e. valid_version parse e \<and>
                     is_framework_compatible (normalize_framework target) (supported_frameworks e))
          (concat data)))"

text \<open>What the loop body appends for an entry, if anything.\<close>

definition select ::
  "(string \<Rightarrow> 'v option) \<Rightarrow> string \<Rightarrow> catalog_entry \<Rightarrow> (string \<times> version_info) option" where
  "select parse target e =
     (case version e of
        None \<Rightarrow> None
      | Some v \<Rightarrow>
          if parse v \<noteq> None \<and>
             is_framework_compatible target (get_supported_frameworks (dependencyGroups e))
          then Some (v, \<lparr>vi_version = v, vi_published = published e,
                          vi_downloads = (case downloads e of None \<Rightarrow> 0 | Some d \<Rightarrow> d),
                          vi_supported_frameworks = get_supported_frameworks (dependencyGroups e)\<rparr>)
          else None)"

text \<open>
  A result mentions the package and the target: its lower-cased text contains both
  lower-cased names.
\<close>

definition mentions :: "string \<Rightarrow> string \<Rightarrow> search_result \<Rightarrow> bool" where
  "mentions package_name target_framework result =
     (str_contains (str_lower package_name) (str_lower (result_text result)) \<and>
      str_contains (str_lower target_framework) (str_lower (result_text result)))"

text \<open>The matches of the two version patterns in a text.\<close>

definition version_tokens :: "string \<Rightarrow> string set" where
  "version_tokens text = set (findall version3_pattern text) \<union> set (findall version2_pattern text)"

text \<open>The strings of the form \<^verbatim>\<open>CVE-\d{4}-\d{4,7}\<close>.\<close>

definition is_cve_id :: "string \<Rightarrow> bool" where
  "is_cve_id m =
     (\<exists>y n. m = ''CVE-'' @ y @ ''-'' @ n \<and> length y = 4 \<and> list_all is_digit y \<and>
            4 \<le> length n \<and> length n \<le> 7 \<and> list_all is_digit n)"

text \<open>The record the extraction appends for a match in a result.\<close>

definition vulnerability_of :: "search_result \<Rightarrow> string \<Rightarrow> vulnerability" where
  "vulnerability_of result cve =
     \<lparr>vuln_id = cve, vuln_source = link result, vuln_description = snippet result,
      vuln_severity = extract_severity (result_text result)\<rparr>"

text \<open>
  A component of a version token is a non-empty string of digits. A token ends where
  the next character is not a digit, and is not a dot.
\<close>

definition digits :: "string \<Rightarrow> bool" where
  "digits s = (s \<noteq> [] \<and> list_all is_digit s)"

definition no_digit_ahead :: "string \<Rightarrow> bool" where
  "no_digit_ahead s = (case s of [] \<Rightarrow> True | c # _ \<Rightarrow> \<not> is_digit c)"

definition no_dot_ahead :: "string \<Rightarrow> bool" where
  "no_dot_ahead s = (case s of [] \<Rightarrow> True | c # _ \<Rightarrow> c \<noteq> CHR ''.'')"

definition dot_or_digit :: "char \<Rightarrow> bool" where
  "dot_or_digit c = (is_digit c \<or> c = CHR ''.'')"

section \<open>Sample inputs\<close>

text \<open>
  The answers of the version parser on the strings of the sample catalog, with ranks in
  place of parsed versions: \<open>1.0.0 < 2.0.0 < 10.0.0\<close>, and every other string invalid.
\<close>

definition sample_parse :: "string \<Rightarrow> nat option" where
  "sample_parse = map_of [(''1.0.0'', 1), (''2.0.0'', 2), (''10.0.0'', 10)]"

definition sample_entry :: "string \<Rightarrow> string \<Rightarrow> catalog_entry" where
  "sample_entry v f =
     \<lparr>version = Some v, published = None, downloads = None,
      dependencyGroups = [\<lparr>targetFramework = Some f\<rparr>]\<rparr>"

definition sample_catalog :: catalog where
  "sample_catalog =
     [[sample_entry ''1.0.0'' ''net45'', sample_entry ''2.0.0'' ''netstandard2.0''],
      [sample_entry ''not-a-version'' ''net48'', sample_entry ''10.0.0'' ''net48'']]"

definition sample_results :: "search_result list" where
  "sample_results =
     [\<lparr>title = ''Pkg advisory'', link = ''https://a'',
       snippet = ''CVE-2023-1234 and CVE-2021-44228 affect this package''\<rparr>,
      \<lparr>title = ''Pkg on NET48'', link = ''https://b'',
       snippet = ''Releases 9.0.1 and 10.0.0; HIGH severity CVE-2020-12345678 fixed''\<rparr>,
      \<lparr>title = ''Other'', link = ''https://c'', snippet = ''version 7.7.7''\<rparr>]"

definition fragment_sample :: search_result where
  "fragment_sample = \<lparr>title = ''Pkg for NET48'', link = ''https://d'', snippet = ''release 1.23.4''\<rparr>"

definition fragment_sample2 :: search_result where
  "fragment_sample2 =
     \<lparr>title = ''Pkg for NET48'', link = ''https://e'', snippet = ''release 23.23.2''\<rparr>"

section \<open>Properties\<close>

subsection \<open>The normalizer\<close>

lemma lower_char_idem: "lower_char (lower_char c) = lower_char c"
  by (simp add: lower_char_def Let_def)

lemma normalize_fixed:
  assumes "str_lower f = f" "CHR ''.'' \<notin> set f" "CHR ''-'' \<notin> set f" "prefix ''net'' f"
  shows "normalize_framework f = f"
proof -
  have "str_remove (CHR ''-'') (str_remove (CHR ''.'') f) = f"
    using assms(2,3) by (auto simp: str_remove_def filter_id_conv)
  then show ?thesis using assms(1,4) by (simp add: normalize_framework_def)
qed

lemma normalize_framework_idem:
  "normalize_framework (normalize_framework s) = normalize_framework s"
proof -
  define f where "f = str_remove (CHR ''-'') (str_remove (CHR ''.'') (str_lower s))"
  have lf: "str_lower f = f"
    unfolding f_def by (induction s) (auto simp: str_lower_def str_remove_def lower_char_idem)
  have nd: "CHR ''.'' \<notin> set f" "CHR ''-'' \<notin> set f"
    unfolding f_def by (auto simp: str_remove_def)
  have ln: "str_lower ''net'' = ''net''"
    by code_simp
  show ?thesis
  proof (cases "prefix ''net'' f")
    case True
    then have "normalize_framework s = f"
      by (simp add: normalize_framework_def f_def Let_def)
    moreover have "normalize_framework f = f"
      using lf nd True by (rule normalize_fixed)
    ultimately show ?thesis by simp
  next
    case False
    then have e: "normalize_framework s = ''net'' @ f"
      by (simp add: normalize_framework_def f_def Let_def)
    have "normalize_framework (''net'' @ f) = ''net'' @ f"
    proof (rule normalize_fixed)
      show "str_lower (''net'' @ f) = ''net'' @ f"
        using lf ln by (simp add: str_lower_def)
    qed (use nd in auto)
    with e show ?thesis by simp
  qed
qed

text \<open>
  Idempotence does not depend on the alphabet. It needs one property of
  \<^verbatim>\<open>str.lower\<close>: a string made of characters that occur in a lower-cased string, and
  of \<open>n\<close>, \<open>e\<close>, \<open>t\<close>, is left unchanged by it. The lower-casing of the 8-bit model has
  the property, and the 8-bit normalizer is the instance.
\<close>

lemma normalize_with_idem:
  assumes "\<And>s t. set t \<subseteq> set (lower s) \<union> {110, 101, 116} \<Longrightarrow> lower t = t"
  shows "normalize_with lower (normalize_with lower s) = normalize_with lower s"
proof -
  define f where "f = filter (\<lambda>x. x \<noteq> 45) (filter (\<lambda>x. x \<noteq> 46) (lower s))"
  define r where "r = normalize_with lower s"
  have r: "r = (if prefix [110, 101, 116] f then f else [110, 101, 116] @ f)"
    by (simp add: r_def normalize_with_def f_def Let_def)
  have "set f \<subseteq> set (lower s)"
    by (auto simp: f_def)
  then have "set r \<subseteq> set (lower s) \<union> {110, 101, 116}"
    unfolding r by auto
  then have l: "lower r = r"
    by (rule assms)
  have "45 \<notin> set f" "46 \<notin> set f"
    by (auto simp: f_def)
  then have "45 \<notin> set r" "46 \<notin> set r"
    unfolding r by auto
  then have k: "filter (\<lambda>x. x \<noteq> 45) (filter (\<lambda>x. x \<noteq> 46) r) = r"
    by (auto simp: filter_id_conv)
  have p: "prefix [110, 101, 116] r"
    unfolding r by simp
  have "normalize_with lower r = r"
    by (simp only: normalize_with_def l k Let_def p if_True)
  then show ?thesis
    by (simp add: r_def)
qed

lemma lower_latin1_stable:
  assumes "set t \<subseteq> set (lower_latin1 s) \<union> {110, 101, 116}"
  shows "lower_latin1 t = t"
proof -
  have net: "of_char (lower_char (char_of n)) = n" if "n \<in> {110, 101, 116}" for n :: nat
    using that by (auto simp: lower_char_def Let_def)
  have out: "of_char (lower_char (char_of (of_char (lower_char c) :: nat))) = (of_char (lower_char c) :: nat)"
    for c
    by (simp add: lower_char_idem)
  have "of_char (lower_char (char_of n)) = n" if "n \<in> set t" for n :: nat
  proof -
    from that assms consider "n \<in> {110, 101, 116}" | "n \<in> set (lower_latin1 s)" by blast
    then show ?thesis
    proof cases
      case 1
      then show ?thesis by (rule net)
    next
      case 2
      then have "n \<in> (\<lambda>m. of_char (lower_char (char_of m))) ` set s"
        by (simp add: lower_latin1_def)
      then obtain m :: nat where "n = of_char (lower_char (char_of m))"
        by (rule imageE)
      then show ?thesis by (simp only: out)
    qed
  qed
  then show ?thesis
    unfolding lower_latin1_def by (simp add: map_idI)
qed

lemma prefix_take_iff: "prefix xs ys \<longleftrightarrow> take (length xs) ys = xs"
proof
  assume "prefix xs ys"
  then obtain zs where "ys = xs @ zs" by (auto simp: prefix_def)
  then show "take (length xs) ys = xs" by simp
next
  assume "take (length xs) ys = xs"
  then have "ys = xs @ drop (length xs) ys" by (metis append_take_drop_id)
  then show "prefix xs ys" by (metis prefixI)
qed

lemma of_char_dot: "(of_char c :: nat) \<noteq> 46 \<longleftrightarrow> c \<noteq> CHR ''.''"
proof -
  have "(46 :: nat) = of_char (CHR ''.'')" by simp
  then show ?thesis by (simp only: of_char_eq_iff)
qed

lemma of_char_dash: "(of_char c :: nat) \<noteq> 45 \<longleftrightarrow> c \<noteq> CHR ''-''"
proof -
  have "(45 :: nat) = of_char (CHR ''-'')" by simp
  then show ?thesis by (simp only: of_char_eq_iff)
qed

lemma normalize_framework_latin1:
  "map of_char (normalize_framework s) = normalize_with lower_latin1 (map of_char s)"
proof -
  define f where "f = str_remove (CHR ''-'') (str_remove (CHR ''.'') (str_lower s))"
  have l: "lower_latin1 (map of_char s) = map (of_char :: char \<Rightarrow> nat) (str_lower s)"
    by (simp add: lower_latin1_def str_lower_def)
  have fm: "filter (\<lambda>x. x \<noteq> k) (map (of_char :: char \<Rightarrow> nat) t) =
            map of_char (filter (\<lambda>c. (of_char c :: nat) \<noteq> k) t)" for k t
    by (induction t) auto
  have e: "filter (\<lambda>x. x \<noteq> 45) (filter (\<lambda>x. x \<noteq> 46) (lower_latin1 (map of_char s))) =
           map (of_char :: char \<Rightarrow> nat) f"
    unfolding l fm of_char_dot of_char_dash f_def str_remove_def ..
  have n: "[110, 101, 116] = map (of_char :: char \<Rightarrow> nat) ''net''"
    by simp
  have inj: "inj (of_char :: char \<Rightarrow> nat)"
    by (rule injI) (simp only: of_char_eq_iff)
  have "prefix [110, 101, 116] (map (of_char :: char \<Rightarrow> nat) f) \<longleftrightarrow>
        take 3 (map (of_char :: char \<Rightarrow> nat) f) = [110, 101, 116]"
    by (simp add: prefix_take_iff numeral_3_eq_3)
  also have "\<dots> \<longleftrightarrow> map (of_char :: char \<Rightarrow> nat) (take 3 f) = map of_char ''net''"
    by (simp add: take_map)
  also have "\<dots> \<longleftrightarrow> take 3 f = ''net''"
    using inj by (rule inj_map_eq_map)
  also have "\<dots> \<longleftrightarrow> prefix ''net'' f"
    by (simp add: prefix_take_iff numeral_3_eq_3)
  finally have p: "prefix [110, 101, 116] (map (of_char :: char \<Rightarrow> nat) f) \<longleftrightarrow> prefix ''net'' f" .
  have "normalize_with lower_latin1 (map of_char s) =
        (if prefix ''net'' f then map of_char f else [110, 101, 116] @ map of_char f)"
    unfolding normalize_with_def e Let_def p ..
  also have "\<dots> = map of_char (if prefix ''net'' f then f else ''net'' @ f)"
    by simp
  also have "(if prefix ''net'' f then f else ''net'' @ f) = normalize_framework s"
    unfolding normalize_framework_def f_def Let_def ..
  finally show ?thesis by (rule sym)
qed

text \<open>
  Claim C9. The normalizer is idempotent, for every string; and it is the function that
  lower-cases, drops every \<open>.\<close> and \<open>-\<close>, and puts \<open>net\<close> in front unless the result
  begins with it. It is total: on strings no step of it can raise. On code points the
  8-bit normalizer is the general one with the 8-bit lower-casing, and the general one
  is idempotent for every lower-casing that leaves unchanged the strings made of
  characters of its own results and of \<open>n\<close>, \<open>e\<close>, \<open>t\<close>.
\<close>

theorem C9_normalize_idempotent:
  "normalize_framework (normalize_framework s) = normalize_framework s \<and>
   normalize_framework s =
     (let f = filter (\<lambda>c. c \<noteq> CHR ''.'' \<and> c \<noteq> CHR ''-'') (map lower_char s)
      in if take 3 f = ''net'' then f else ''net'' @ f) \<and>
   map of_char (normalize_framework s) = normalize_with lower_latin1 (map of_char s) \<and>
   ((\<forall>a b. set b \<subseteq> set (lower a) \<union> {110, 101, 116} \<longrightarrow> lower b = b) \<longrightarrow>
      normalize_with lower (normalize_with lower u) = normalize_with lower u)"
proof (intro conjI impI)
  show "normalize_framework (normalize_framework s) = normalize_framework s"
    by (rule normalize_framework_idem)
next
  have "prefix ''net'' f \<longleftrightarrow> take 3 f = ''net''" for f :: string
    by (simp add: prefix_take_iff numeral_3_eq_3)
  moreover have "str_remove (CHR ''-'') (str_remove (CHR ''.'') (str_lower s)) =
      filter (\<lambda>c. c \<noteq> CHR ''.'' \<and> c \<noteq> CHR ''-'') (map lower_char s)"
    by (auto simp: str_remove_def str_lower_def intro: filter_cong)
  ultimately show "normalize_framework s =
     (let f = filter (\<lambda>c. c \<noteq> CHR ''.'' \<and> c \<noteq> CHR ''-'') (map lower_char s)
      in if take 3 f = ''net'' then f else ''net'' @ f)"
    by (simp add: normalize_framework_def Let_def)
next
  show "map of_char (normalize_framework s) = normalize_with lower_latin1 (map of_char s)"
    by (rule normalize_framework_latin1)
next
  assume "\<forall>a b. set b \<subseteq> set (lower a) \<union> {110, 101, 116} \<longrightarrow> lower b = b"
  then have "lower b = b" if "set b \<subseteq> set (lower a) \<union> {110, 101, 116}" for a b
    using that by blast
  then show "normalize_with lower (normalize_with lower u) = normalize_with lower u"
    by (rule normalize_with_idem)
qed

subsection \<open>The compatibility check\<close>

lemma compat_loop_iff:
  "compat_loop tbl t S \<longleftrightarrow>
     (\<exists>(k, row) \<in> set tbl. t \<in> set row \<and> (\<exists>f \<in> set row. f \<in> S))"
  by (induction tbl t S rule: compat_loop.induct) (auto simp: list_ex_iff)

lemma distinct_keys: "distinct (map fst FRAMEWORK_COMPATIBILITY)"
  by (simp add: FRAMEWORK_COMPATIBILITY_def)

text \<open>
  Claim C2. The check holds exactly when the normalized target is in the supported set,
  or some key \<open>k\<close> of the table has a list that contains the normalized target and an
  element of the supported set.
\<close>

theorem C2_is_framework_compatible_iff:
  "is_framework_compatible target supported \<longleftrightarrow>
     normalize_framework target \<in> supported \<or>
     (\<exists>k row. map_of FRAMEWORK_COMPATIBILITY k = Some row \<and>
        normalize_framework target \<in> set row \<and> (\<exists>f. f \<in> set row \<and> f \<in> supported))"
proof -
  have "(\<exists>(k, row) \<in> set FRAMEWORK_COMPATIBILITY. P k row) \<longleftrightarrow>
        (\<exists>k row. map_of FRAMEWORK_COMPATIBILITY k = Some row \<and> P k row)" for P
    using distinct_keys by (auto dest: map_of_SomeD)
  then show ?thesis
    by (auto simp: is_framework_compatible_def Let_def compat_loop_iff)
qed

subsection \<open>The resolver's loops and sorts\<close>

lemma process_entry_ok:
  assumes "version e \<noteq> None"
  shows "process_entry parse t e acc =
           Inr (fst acc @ map fst (List.map_filter (select parse t) [e]),
                snd acc @ map snd (List.map_filter (select parse t) [e]))"
  using assms
  by (cases acc)
     (auto simp: process_entry_def select_def Version_def List.map_filter_simps Let_def
           split: option.splits)

lemma map_filter_append: "List.map_filter f (xs @ ys) = List.map_filter f xs @ List.map_filter f ys"
  by (simp add: List.map_filter_def)

lemma process_entries_ok:
  assumes "\<forall>e \<in> set es. version e \<noteq> None"
  shows "process_entries parse t es acc =
           Inr (fst acc @ map fst (List.map_filter (select parse t) es),
                snd acc @ map snd (List.map_filter (select parse t) es))"
  using assms
proof (induction es arbitrary: acc)
  case Nil
  then show ?case by (simp add: List.map_filter_simps)
next
  case (Cons e es)
  have "List.map_filter (select parse t) (e # es) =
        List.map_filter (select parse t) [e] @ List.map_filter (select parse t) es"
    using map_filter_append [of "select parse t" "[e]" es] by simp
  with Cons show ?case
    by (simp add: process_entry_ok)
qed

lemma process_pages_ok:
  assumes "\<forall>e \<in> set (concat data). version e \<noteq> None"
  shows "process_pages parse t data acc =
           Inr (fst acc @ map fst (List.map_filter (select parse t) (concat data)),
                snd acc @ map snd (List.map_filter (select parse t) (concat data)))"
  using assms
proof (induction data arbitrary: acc)
  case Nil
  then show ?case by (simp add: List.map_filter_simps)
next
  case (Cons p ps)
  then show ?case
    by (simp add: process_entries_ok map_filter_append)
qed

lemma keys_of_total:
  "keys_of (\<lambda>x. Inr (k x)) xs = Inr (map (\<lambda>x. (k x, x)) xs)"
  by (induction xs) auto

lemma keys_of_cong:
  "(\<And>x. x \<in> set xs \<Longrightarrow> f x = g x) \<Longrightarrow> keys_of f xs = keys_of g xs"
proof (induction xs)
  case (Cons a xs)
  then have "keys_of f xs = keys_of g xs" "f a = g a" by auto
  then show ?case by (simp split: sum.splits)
qed simp

lemma insort_key_decorate:
  "insort_key fst (k x, x) (map (\<lambda>x. (k x, x)) ys) = map (\<lambda>x. (k x, x)) (insort_key k x ys)"
  by (induction ys) auto

lemma sort_key_decorate:
  "sort_key fst (map (\<lambda>x. (k x, x)) xs) = map (\<lambda>x. (k x, x)) (sort_key k xs)"
  by (induction xs) (auto simp: insort_key_decorate)

lemma sort_reverse_decorate:
  "map snd (sort_reverse fst (map (\<lambda>x. (k x, x)) xs)) = sort_reverse k xs"
  by (simp add: sort_reverse_def rev_map sort_key_decorate comp_def)

lemma py_sort_reverse_ok:
  assumes "\<And>x. x \<in> set xs \<Longrightarrow> f x = Inr (k x)"
  shows "py_sort_reverse f xs = Inr (sort_reverse k xs)"
proof -
  have "keys_of f xs = keys_of (\<lambda>x. Inr (k x)) xs"
    using assms by (rule keys_of_cong)
  then show ?thesis
    by (simp add: py_sort_reverse_def keys_of_total sort_reverse_decorate)
qed

lemma mset_sort_reverse: "mset (sort_reverse k xs) = mset xs"
  by (simp add: sort_reverse_def)

lemma set_sort_reverse: "set (sort_reverse k xs) = set xs"
  by (simp add: sort_reverse_def)

lemma sorted_sort_reverse: "sorted (rev (map k (sort_reverse k xs)))"
  by (simp add: sort_reverse_def rev_map)

lemma sort_reverse_stable:
  "filter (\<lambda>y. k y = a) (sort_reverse k xs) = filter (\<lambda>y. k y = a) xs"
  by (simp add: sort_reverse_def rev_filter [symmetric] sort_key_stable)

lemma sort_reverse_map:
  "map f (sort_reverse (k \<circ> f) xs) = sort_reverse k (map f xs)"
proof -
  have "map f (sort_key (k \<circ> f) ys) = sort_key k (map f ys)" for ys
  proof (induction ys)
    case (Cons y ys)
    have "map f (insort_key (k \<circ> f) y zs) = insort_key k (f y) (map f zs)" for zs
      by (induction zs) auto
    with Cons show ?case by (simp add: comp_def)
  qed simp
  then have "sort_key k (map f ys) = map f (sort_key (k \<circ> f) ys)" for ys
    by simp
  then show ?thesis by (simp add: sort_reverse_def rev_map)
qed

lemma foldl_supported:
  "foldl (\<lambda>frameworks group.
              let framework = (case targetFramework group of None \<Rightarrow> [] | Some f \<Rightarrow> f)
              in if framework \<noteq> [] then insert (normalize_framework framework) frameworks
                 else frameworks) A gs =
   A \<union> set (map normalize_framework
            (filter (\<lambda>f. f \<noteq> [])
               (concat (map (\<lambda>g. case targetFramework g of None \<Rightarrow> [] | Some f \<Rightarrow> [f]) gs))))"
  by (induction gs arbitrary: A) (auto simp: Let_def split: option.splits)

lemma get_supported_frameworks_eq:
  "get_supported_frameworks (dependencyGroups e) = supported_frameworks e"
  by (simp add: get_supported_frameworks_def supported_frameworks_def foldl_supported)

lemma select_fst:
  "map fst (List.map_filter (select parse (normalize_framework t)) es) =
   concat (map (\<lambda>e. case version e of None \<Rightarrow> [] | Some v \<Rightarrow> [v])
       (filter (\<lambda>e. valid_version parse e \<and>
                     is_framework_compatible (normalize_framework t) (supported_frameworks e)) es))"
  by (induction es)
     (auto simp: List.map_filter_simps select_def valid_version_def get_supported_frameworks_eq
           split: option.splits)

lemma select_parses:
  "x \<in> set (List.map_filter (select parse t) es) \<Longrightarrow>
     parse (fst x) \<noteq> None \<and> vi_version (snd x) = fst x"
  by (induction es) (auto simp: List.map_filter_simps select_def split: option.splits if_splits)

lemma body_ok:
  assumes "\<forall>e \<in> set (concat data). version e \<noteq> None"
  shows "compatible_versions_body parse pkg tf (Inr data) =
     (let sel = List.map_filter (select parse (normalize_framework tf)) (concat data);
          cvs = sort_reverse (\<lambda>v. the (parse v)) (map fst sel)
      in Inr \<lparr>cv_package_id = pkg,
          cv_target_framework = normalize_framework tf,
          cv_compatible_versions = cvs,
          cv_latest_compatible = (case cvs of [] \<Rightarrow> None | v # _ \<Rightarrow> Some v),
          cv_version_details = sort_reverse (\<lambda>d. the (parse (vi_version d))) (map snd sel)\<rparr>)"
proof -
  define sel where "sel = List.map_filter (select parse (normalize_framework tf)) (concat data)"
  have pp: "process_pages parse (normalize_framework tf) data ([], []) = Inr (map fst sel, map snd sel)"
    using process_pages_ok [OF assms(1), of parse "normalize_framework tf" "([], [])"]
    by (simp add: sel_def)
  have s1: "py_sort_reverse (Version parse) (map fst sel) =
            Inr (sort_reverse (\<lambda>v. the (parse v)) (map fst sel))"
    by (rule py_sort_reverse_ok) (auto simp: Version_def sel_def dest!: select_parses)
  have s2: "py_sort_reverse (\<lambda>x. Version parse (vi_version x)) (map snd sel) =
            Inr (sort_reverse (\<lambda>d. the (parse (vi_version d))) (map snd sel))"
    by (rule py_sort_reverse_ok) (auto simp: Version_def sel_def dest!: select_parses)
  show ?thesis
    unfolding sel_def [symmetric] by (simp add: compatible_versions_body_def pp s1 s2 Let_def)
qed

subsection \<open>\<^verbatim>\<open>get_compatible_versions\<close> and \<^verbatim>\<open>get_package_versions\<close>\<close>

lemma is_framework_compatible_normalize:
  "is_framework_compatible (normalize_framework t) S = is_framework_compatible t S"
  by (simp add: is_framework_compatible_def normalize_framework_idem)

lemma get_compatible_versions_ok:
  assumes "\<forall>e \<in> set (concat data). version e \<noteq> None"
  shows "get_compatible_versions parse pkg tf cur (Inr data) =
     (let sel = List.map_filter (select parse (normalize_framework tf)) (concat data);
          cvs = sort_reverse (\<lambda>v. the (parse v)) (map fst sel)
      in Inr (Success \<lparr>cv_package_id = pkg,
          cv_target_framework = normalize_framework tf,
          cv_compatible_versions = cvs,
          cv_latest_compatible = (case cvs of [] \<Rightarrow> None | v # _ \<Rightarrow> Some v),
          cv_version_details = sort_reverse (\<lambda>d. the (parse (vi_version d))) (map snd sel)\<rparr>))"
  by (simp add: get_compatible_versions_def body_ok [OF assms] Let_def)

text \<open>
  Claim C1. For a catalog of version records (each carries a version string), and
  whatever the package, the target and the current version, the call returns a
  success envelope whose \<open>compatible_versions\<close> are exactly (as a multiset) the version
  strings that parse and whose declared frameworks, each normalized, are compatible with
  the normalized target; they are in descending order of their parsed versions; and
  \<open>latest_compatible\<close> is the first of them (\<open>None\<close> when there is none).
\<close>

theorem C1_get_compatible_versions:
  assumes "\<forall>e \<in> set (concat data). version e \<noteq> None"
  shows "\<exists>r. get_compatible_versions parse package_id target_framework current_version (Inr data)
              = Inr (Success r) \<and>
     mset (cv_compatible_versions r) = mset (matching parse target_framework data) \<and>
     (\<exists>ks. map parse (cv_compatible_versions r) = map Some ks \<and> sorted (rev ks)) \<and>
     cv_latest_compatible r = (case cv_compatible_versions r of [] \<Rightarrow> None | v # _ \<Rightarrow> Some v)"
proof -
  define sel where
    "sel = List.map_filter (select parse (normalize_framework target_framework)) (concat data)"
  define cvs where "cvs = sort_reverse (\<lambda>v. the (parse v)) (map fst sel)"
  have m: "map fst sel = matching parse target_framework data"
    by (simp add: sel_def matching_def select_fst)
  have "parse v \<noteq> None" if "v \<in> set cvs" for v
    using that by (auto simp: cvs_def set_sort_reverse sel_def dest!: select_parses)
  then have k: "map parse cvs = map Some (map (\<lambda>v. the (parse v)) cvs)"
    by (induction cvs) auto
  have s: "sorted (rev (map (\<lambda>v. the (parse v)) cvs))"
    unfolding cvs_def by (rule sorted_sort_reverse)
  define r where
    "r = \<lparr>cv_package_id = package_id,
          cv_target_framework = normalize_framework target_framework,
          cv_compatible_versions = cvs,
          cv_latest_compatible = (case cvs of [] \<Rightarrow> None | v # _ \<Rightarrow> Some v),
          cv_version_details = sort_reverse (\<lambda>d. the (parse (vi_version d))) (map snd sel)\<rparr>"
  have g: "get_compatible_versions parse package_id target_framework current_version (Inr data)
        = Inr (Success r)"
    unfolding r_def cvs_def sel_def
    using get_compatible_versions_ok [OF assms] by (simp add: Let_def)
  have c: "cv_compatible_versions r = cvs"
    by (simp add: r_def)
  have "mset (cv_compatible_versions r) = mset (matching parse target_framework data)"
    unfolding c by (simp add: cvs_def mset_sort_reverse m)
  moreover have "\<exists>ks. map parse (cv_compatible_versions r) = map Some ks \<and> sorted (rev ks)"
    unfolding c using k s by blast
  moreover have "cv_latest_compatible r =
      (case cv_compatible_versions r of [] \<Rightarrow> None | v # _ \<Rightarrow> Some v)"
    by (simp add: r_def)
  ultimately show ?thesis
    using g by blast
qed

text \<open>
  Claim C4. A catalog fetched without a transport failure (each of its records carries
  a version string), none of whose records declares a framework set compatible with the
  target, yields
  a success envelope with no compatible version, no detail and \<open>latest_compatible = None\<close>.
\<close>

theorem C4_no_match_is_success:
  assumes "\<forall>e \<in> set (concat data). version e \<noteq> None"
    and "\<forall>e \<in> set (concat data).
           \<not> is_framework_compatible target_framework (supported_frameworks e)"
  shows "get_compatible_versions parse package_id target_framework current_version (Inr data) =
     Inr (Success \<lparr>cv_package_id = package_id,
                   cv_target_framework = normalize_framework target_framework,
                   cv_compatible_versions = [],
                   cv_latest_compatible = None,
                   cv_version_details = []\<rparr>)"
proof -
  have "select parse (normalize_framework target_framework) e = None"
    if "e \<in> set (concat data)" for e
    using that assms(2)
    by (auto simp: select_def get_supported_frameworks_eq is_framework_compatible_normalize
             split: option.splits)
  then have "List.map_filter (select parse (normalize_framework target_framework)) es = []"
    if "set es \<subseteq> set (concat data)" for es
    using that by (induction es) (auto simp: List.map_filter_simps)
  then have "List.map_filter (select parse (normalize_framework target_framework)) (concat data) = []"
    by blast
  then show ?thesis
    by (simp add: get_compatible_versions_ok [OF assms(1)] sort_reverse_def)
qed

lemma map_filter_skip:
  assumes "\<And>x. x \<in> set xs \<Longrightarrow> \<not> P x \<Longrightarrow> f x = None"
  shows "List.map_filter f (filter P xs) = List.map_filter f xs"
  using assms by (induction xs) (auto simp: List.map_filter_simps split: option.splits)

lemma select_member:
  assumes "e \<in> set es" "select parse t e = Some x"
  shows "x \<in> set (List.map_filter (select parse t) es)"
  using assms by (induction es) (auto simp: List.map_filter_simps split: option.splits)

lemma select_details_versions:
  "map vi_version (map snd (List.map_filter (select parse t) es)) =
   map fst (List.map_filter (select parse t) es)"
  by (rule nth_equalityI) (auto dest!: select_parses nth_mem)

text \<open>
  Claim C5. Version strings that do not parse do not fail the request. Whatever strings
  the records of the catalog carry as their versions, the call returns a success
  envelope; no string in \<open>compatible_versions\<close> or \<open>version_details\<close> is unparseable;
  the valid records are processed and returned: \<open>compatible_versions\<close> holds exactly
  the version strings of the valid compatible records, \<open>version_details\<close> has one record
  for each of them in the same order, and every valid compatible record of the catalog
  has its version and its detail record in the result; and the result is the one the
  catalog without its unparseable records gives.
\<close>

theorem C5_invalid_versions_skipped:
  assumes "\<forall>e \<in> set (concat data). version e \<noteq> None"
  shows "\<exists>r. get_compatible_versions parse package_id target_framework current_version (Inr data)
              = Inr (Success r) \<and>
     (\<forall>v \<in> set (cv_compatible_versions r). parse v \<noteq> None) \<and>
     (\<forall>d \<in> set (cv_version_details r). parse (vi_version d) \<noteq> None) \<and>
     mset (cv_compatible_versions r) = mset (matching parse target_framework data) \<and>
     map vi_version (cv_version_details r) = cv_compatible_versions r \<and>
     (\<forall>e \<in> set (concat data).
        valid_version parse e \<and>
        is_framework_compatible (normalize_framework target_framework) (supported_frameworks e) \<longrightarrow>
        (\<exists>v. version e = Some v \<and> v \<in> set (cv_compatible_versions r) \<and>
             \<lparr>vi_version = v, vi_published = published e,
              vi_downloads = (case downloads e of None \<Rightarrow> 0 | Some d \<Rightarrow> d),
              vi_supported_frameworks = supported_frameworks e\<rparr>
               \<in> set (cv_version_details r))) \<and>
     get_compatible_versions parse package_id target_framework current_version
       (Inr (map (filter (valid_version parse)) data)) = Inr (Success r)"
proof -
  let ?t = "normalize_framework target_framework"
  let ?data = "map (filter (valid_version parse)) data"
  define sel where "sel = List.map_filter (select parse ?t) (concat data)"
  define cvs where "cvs = sort_reverse (\<lambda>v. the (parse v)) (map fst sel)"
  define dts where "dts = sort_reverse (\<lambda>d. the (parse (vi_version d))) (map snd sel)"
  define r where
    "r = \<lparr>cv_package_id = package_id, cv_target_framework = ?t,
          cv_compatible_versions = cvs,
          cv_latest_compatible = (case cvs of [] \<Rightarrow> None | v # _ \<Rightarrow> Some v),
          cv_version_details = dts\<rparr>"
  have g: "get_compatible_versions parse package_id target_framework current_version (Inr data)
        = Inr (Success r)"
    unfolding r_def cvs_def dts_def sel_def
    using get_compatible_versions_ok [OF assms] by (simp add: Let_def)
  have c: "concat ?data = filter (valid_version parse) (concat data)"
    by (simp add: filter_concat)
  have a: "\<forall>e \<in> set (concat ?data). version e \<noteq> None"
    unfolding c using assms by auto
  have "select parse ?t e = None" if "\<not> valid_version parse e" for e
    using that by (auto simp: select_def valid_version_def split: option.splits)
  then have e: "List.map_filter (select parse ?t) (concat ?data) = sel"
    unfolding c sel_def by (intro map_filter_skip)
  have g': "get_compatible_versions parse package_id target_framework current_version (Inr ?data)
        = Inr (Success r)"
    using get_compatible_versions_ok [OF a, of parse package_id target_framework current_version]
    unfolding Let_def e r_def cvs_def dts_def by simp
  have p: "parse (fst x) \<noteq> None \<and> vi_version (snd x) = fst x" if "x \<in> set sel" for x
    using that unfolding sel_def by (rule select_parses)
  have v1: "\<forall>v \<in> set (cv_compatible_versions r). parse v \<noteq> None"
    using p by (auto simp: r_def cvs_def set_sort_reverse)
  have v2: "\<forall>d \<in> set (cv_version_details r). parse (vi_version d) \<noteq> None"
    using p by (auto simp: r_def dts_def set_sort_reverse)
  have m: "map fst sel = matching parse target_framework data"
    by (simp add: sel_def matching_def select_fst)
  have v3: "mset (cv_compatible_versions r) = mset (matching parse target_framework data)"
    by (simp add: r_def cvs_def mset_sort_reverse m)
  have "map vi_version dts = sort_reverse (\<lambda>v. the (parse v)) (map vi_version (map snd sel))"
    unfolding dts_def
    using sort_reverse_map [of vi_version "\<lambda>v. the (parse v)" "map snd sel"]
    by (simp add: comp_def)
  also have "map vi_version (map snd sel) = map fst sel"
    unfolding sel_def by (rule select_details_versions)
  finally have v4: "map vi_version (cv_version_details r) = cv_compatible_versions r"
    by (simp add: r_def cvs_def)
  have v5: "\<exists>v. version e = Some v \<and> v \<in> set (cv_compatible_versions r) \<and>
             \<lparr>vi_version = v, vi_published = published e,
              vi_downloads = (case downloads e of None \<Rightarrow> 0 | Some d \<Rightarrow> d),
              vi_supported_frameworks = supported_frameworks e\<rparr>
               \<in> set (cv_version_details r)"
    if e: "e \<in> set (concat data)" and ok: "valid_version parse e"
       "is_framework_compatible ?t (supported_frameworks e)" for e
  proof -
    from ok(1) obtain v where v: "version e = Some v" "parse v \<noteq> None"
      by (auto simp: valid_version_def split: option.splits)
    let ?d = "\<lparr>vi_version = v, vi_published = published e,
              vi_downloads = (case downloads e of None \<Rightarrow> 0 | Some d \<Rightarrow> d),
              vi_supported_frameworks = supported_frameworks e\<rparr>"
    have "select parse ?t e = Some (v, ?d)"
      using v ok(2) by (simp add: select_def get_supported_frameworks_eq)
    with e have "(v, ?d) \<in> set sel"
      unfolding sel_def by (rule select_member)
    then have "v \<in> set (map fst sel)" "?d \<in> set (map snd sel)"
      by force+
    then have "v \<in> set (cv_compatible_versions r)" "?d \<in> set (cv_version_details r)"
      by (simp_all add: r_def cvs_def dts_def set_sort_reverse)
    with v(1) show ?thesis by blast
  qed
  from g v1 v2 v3 v4 v5 g' show ?thesis
    by (intro exI [of _ r] conjI ballI impI) auto
qed

text \<open>
  Claim C3. \<open>get_package_versions\<close> handles \<^verbatim>\<open>RequestException\<close> only. On a
  catalog of two entries, one of them without a \<^verbatim>\<open>version\<close> key, the sort compares
  a string with \<^verbatim>\<open>None\<close>: the \<^verbatim>\<open>TypeError\<close> leaves the operation instead of
  becoming an error envelope.
\<close>

theorem C3_get_package_versions_raises:
  "get_package_versions ''pkg''
     (Inr [[\<lparr>version = Some ''1.0.0'', published = None, downloads = None, dependencyGroups = []\<rparr>,
            \<lparr>version = None, published = None, downloads = None, dependencyGroups = []\<rparr>]])
   = Inl TypeError"
  by (simp add: get_package_versions_def package_versions_body_def
        sorted_by_version_reverse_def collect_versions_def)

text \<open>
  \<open>get_compatible_versions\<close> has the second handler, \<^verbatim>\<open>except Exception\<close>, and
  returns an envelope whatever happens.
\<close>

lemma get_compatible_versions_returns:
  "\<exists>env. get_compatible_versions parse package_id target_framework current_version response = Inr env"
  by (simp add: get_compatible_versions_def split: sum.splits py_exception.splits)

text \<open>The three theorems at the sample catalog.\<close>

theorem C1_get_compatible_versions_witness:
  "\<exists>r. get_compatible_versions sample_parse ''pkg'' ''net48'' None (Inr sample_catalog)
          = Inr (Success r) \<and>
       mset (cv_compatible_versions r) = mset [''1.0.0'', ''10.0.0''] \<and>
       (\<exists>ks. map sample_parse (cv_compatible_versions r) = map Some ks \<and> sorted (rev ks)) \<and>
       cv_latest_compatible r = (case cv_compatible_versions r of [] \<Rightarrow> None | v # _ \<Rightarrow> Some v)"
proof -
  have h: "\<forall>e \<in> set (concat sample_catalog). version e \<noteq> None"
    by code_simp
  have m: "matching sample_parse ''net48'' sample_catalog = [''1.0.0'', ''10.0.0'']"
    by code_simp
  show ?thesis
    using C1_get_compatible_versions [OF h, of sample_parse "''pkg''" "''net48''" None]
    unfolding m .
qed

theorem C4_no_match_is_success_witness:
  "get_compatible_versions sample_parse ''pkg'' ''net8.0'' None (Inr sample_catalog) =
     Inr (Success \<lparr>cv_package_id = ''pkg'', cv_target_framework = ''net80'',
                   cv_compatible_versions = [], cv_latest_compatible = None,
                   cv_version_details = []\<rparr>)"
proof -
  have h: "\<forall>e \<in> set (concat sample_catalog). version e \<noteq> None"
    by code_simp
  have n: "\<forall>e \<in> set (concat sample_catalog).
             \<not> is_framework_compatible ''net8.0'' (supported_frameworks e)"
    by code_simp
  have t: "normalize_framework ''net8.0'' = ''net80''"
    by code_simp
  show ?thesis
    using C4_no_match_is_success [OF h n, of sample_parse "''pkg''" None]
    unfolding t .
qed

theorem C5_invalid_versions_skipped_witness:
  "\<exists>r. get_compatible_versions sample_parse ''pkg'' ''net48'' None (Inr sample_catalog)
          = Inr (Success r) \<and>
       ''not-a-version'' \<notin> set (cv_compatible_versions r) \<and>
       ''not-a-version'' \<notin> set (map vi_version (cv_version_details r)) \<and>
       ''1.0.0'' \<in> set (cv_compatible_versions r) \<and>
       ''10.0.0'' \<in> set (cv_compatible_versions r) \<and>
       map vi_version (cv_version_details r) = cv_compatible_versions r \<and>
       get_compatible_versions sample_parse ''pkg'' ''net48'' None
         (Inr [[sample_entry ''1.0.0'' ''net45'', sample_entry ''2.0.0'' ''netstandard2.0''],
               [sample_entry ''10.0.0'' ''net48'']]) = Inr (Success r)"
proof -
  have h: "\<forall>e \<in> set (concat sample_catalog). version e \<noteq> None"
    by code_simp
  have f: "map (filter (valid_version sample_parse)) sample_catalog =
      [[sample_entry ''1.0.0'' ''net45'', sample_entry ''2.0.0'' ''netstandard2.0''],
       [sample_entry ''10.0.0'' ''net48'']]"
    by code_simp
  have p: "sample_parse ''not-a-version'' = None"
    by code_simp
  have m: "matching sample_parse ''net48'' sample_catalog = [''1.0.0'', ''10.0.0'']"
    by code_simp
  from C5_invalid_versions_skipped [OF h, of sample_parse "''pkg''" "''net48''" None]
  obtain r where r1:
    "get_compatible_versions sample_parse ''pkg'' ''net48'' None (Inr sample_catalog)
       = Inr (Success r)"
    and r2: "\<forall>v \<in> set (cv_compatible_versions r). sample_parse v \<noteq> None"
    and r3: "\<forall>d \<in> set (cv_version_details r). sample_parse (vi_version d) \<noteq> None"
    and r4: "mset (cv_compatible_versions r) = mset (matching sample_parse ''net48'' sample_catalog)"
    and r5: "map vi_version (cv_version_details r) = cv_compatible_versions r"
    and r7: "get_compatible_versions sample_parse ''pkg'' ''net48'' None
       (Inr (map (filter (valid_version sample_parse)) sample_catalog)) = Inr (Success r)"
    by (elim exE conjE)
  have n1: "''not-a-version'' \<notin> set (cv_compatible_versions r)"
  proof
    assume "''not-a-version'' \<in> set (cv_compatible_versions r)"
    with r2 have "sample_parse ''not-a-version'' \<noteq> None" by (rule bspec)
    then show False using p by (rule notE)
  qed
  have n2: "''not-a-version'' \<notin> set (map vi_version (cv_version_details r))"
    using n1 unfolding r5 .
  have "set (cv_compatible_versions r) = set [''1.0.0'', ''10.0.0'']"
    using r4 unfolding m by (rule mset_eq_setD)
  then have i: "''1.0.0'' \<in> set (cv_compatible_versions r)"
      "''10.0.0'' \<in> set (cv_compatible_versions r)"
    by simp_all
  show ?thesis
    using r1 n1 n2 i r5 r7 [unfolded f] by (intro exI conjI)
qed

subsection \<open>The search client: substrings, the chain check, vulnerability records\<close>

text \<open>
  \<open>str_contains\<close> is the substring test.
\<close>

lemma str_contains_iff: "str_contains needle hay \<longleftrightarrow> (\<exists>pre post. hay = pre @ needle @ post)"
proof (induction hay)
  case Nil
  then show ?case by auto
next
  case (Cons c cs)
  show ?case
  proof
    assume "str_contains needle (c # cs)"
    then consider "prefix needle (c # cs)" | "str_contains needle cs" by auto
    then show "\<exists>pre post. c # cs = pre @ needle @ post"
    proof cases
      case 1
      then obtain post where "c # cs = needle @ post" by (auto simp: prefix_def)
      then have "c # cs = [] @ needle @ post" by simp
      then show ?thesis by blast
    next
      case 2
      with Cons obtain pre post where "cs = pre @ needle @ post" by blast
      then have "c # cs = (c # pre) @ needle @ post" by simp
      then show ?thesis by blast
    qed
  next
    assume "\<exists>pre post. c # cs = pre @ needle @ post"
    then obtain pre post where e: "c # cs = pre @ needle @ post" by blast
    show "str_contains needle (c # cs)"
    proof (cases pre)
      case Nil
      with e have "prefix needle (c # cs)" by (simp add: prefix_def)
      then show ?thesis by simp
    next
      case (Cons a pre')
      with e have "cs = pre' @ needle @ post" by simp
      with Cons.IH have "str_contains needle cs" by blast
      then show ?thesis by simp
    qed
  qed
qed

lemma chain_loop_iff: "chain_loop rs chain \<longleftrightarrow> (\<exists>r. r \<in> set rs \<and> r \<in> set chain)"
  by (induction rs) auto

text \<open>
  Claim C8. The chain check is asymmetric on \<open>java17\<close> and \<open>java8\<close>; for every target
  and every list of supported runtimes it holds exactly when a supported runtime is in
  the table's list for the lower-cased target, the list of a target that is not a key
  being empty, so that such a target never passes.
\<close>

theorem C8_chain_check:
  "is_compatible_chain ''java17'' [''java8''] \<and>
   \<not> is_compatible_chain ''java8'' [''java17''] \<and>
   (is_compatible_chain t S \<longleftrightarrow>
      (\<exists>r. r \<in> set S \<and>
           r \<in> set (case map_of JAVA_RUNTIME_COMPATIBILITY (str_lower t) of
                       None \<Rightarrow> [] | Some chain \<Rightarrow> chain))) \<and>
   (map_of JAVA_RUNTIME_COMPATIBILITY (str_lower t) = None \<longrightarrow> \<not> is_compatible_chain t S)"
proof -
  have a: "is_compatible_chain ''java17'' [''java8'']" by code_simp
  have b: "\<not> is_compatible_chain ''java8'' [''java17'']" by code_simp
  have c: "is_compatible_chain t S \<longleftrightarrow>
      (\<exists>r. r \<in> set S \<and>
           r \<in> set (case map_of JAVA_RUNTIME_COMPATIBILITY (str_lower t) of
                       None \<Rightarrow> [] | Some chain \<Rightarrow> chain))"
    by (simp add: is_compatible_chain_def chain_loop_iff)
  from c have d: "map_of JAVA_RUNTIME_COMPATIBILITY (str_lower t) = None \<longrightarrow> \<not> is_compatible_chain t S"
    by simp
  from a b c d show ?thesis by blast
qed

theorem C8_chain_check_witness:
  "\<not> is_compatible_chain ''Python3'' [''java8'', ''java17'']"
proof -
  have "map_of JAVA_RUNTIME_COMPATIBILITY (str_lower ''Python3'') = None" by code_simp
  with C8_chain_check [of "''Python3''" "[''java8'', ''java17'']"] show ?thesis by blast
qed

lemma foldl_append_each: "foldl (\<lambda>acc x. acc @ [f x]) acc xs = acc @ map f xs"
  by (induction xs arbitrary: acc) auto

lemma vulnerabilities_eq:
  "vulnerabilities (extract_vulnerability_info results package_name v) =
     concat (map (\<lambda>r. map (vulnerability_of r) (findall cve_pattern (result_text r))) results)"
proof -
  have "foldl (\<lambda>vulns result.
                     let text = result_text result;
                         cve_matches = findall cve_pattern text
                     in if cve_matches \<noteq> []
                        then foldl (\<lambda>vulns cve.
                                      vulns @
                                        [\<lparr>vuln_id = cve,
                                          vuln_source = link result,
                                          vuln_description = snippet result,
                                          vuln_severity = extract_severity text\<rparr>])
                                   vulns cve_matches
                        else vulns) acc rs =
        acc @ concat (map (\<lambda>r. map (vulnerability_of r) (findall cve_pattern (result_text r))) rs)"
    for acc rs
    by (induction rs arbitrary: acc)
       (auto simp: Let_def foldl_append_each vulnerability_of_def [abs_def])
  then show ?thesis
    by (simp add: extract_vulnerability_info_def Let_def)
qed

lemma extract_severity_find:
  "extract_severity text =
     (case find (\<lambda>k. str_contains k (str_lower text)) [''critical'', ''high'', ''medium'', ''low''] of
        Some k \<Rightarrow> k | None \<Rightarrow> ''unknown'')"
  by (simp add: extract_severity_def Let_def)

subsection \<open>The matcher\<close>

lemma try_down_SomeD:
  "try_down f lo hi = Some r \<Longrightarrow> \<exists>n. lo \<le> n \<and> n \<le> hi \<and> f n = Some r"
proof (induction hi)
  case 0
  then show ?case by (auto split: if_splits)
next
  case (Suc hi)
  show ?case
  proof (cases "f (Suc hi)")
    case None
    with Suc.prems have "try_down f lo hi = Some r"
      by (auto split: if_splits)
    with Suc.IH obtain n where "lo \<le> n" "n \<le> hi" "f n = Some r" by blast
    then show ?thesis by (intro exI [of _ n]) simp
  next
    case (Some a)
    with Suc.prems have "lo \<le> Suc hi" "a = r"
      by (auto split: if_splits)
    with Some show ?thesis by (intro exI [of _ "Suc hi"]) simp
  qed
qed

lemma try_down_None:
  "(\<And>n. lo \<le> n \<Longrightarrow> n \<le> hi \<Longrightarrow> f n = None) \<Longrightarrow> try_down f lo hi = None"
  by (induction hi) auto

lemma try_down_first:
  assumes "lo \<le> m" "m \<le> hi" "f m = Some r"
    and "\<And>n. m < n \<Longrightarrow> n \<le> hi \<Longrightarrow> f n = None"
  shows "try_down f lo hi = Some r"
  using assms
proof (induction hi)
  case 0
  then show ?case by simp
next
  case (Suc hi)
  show ?case
  proof (cases "m = Suc hi")
    case True
    with Suc.prems show ?thesis by simp
  next
    case False
    with Suc.prems have "m \<le> hi" "f (Suc hi) = None" by auto
    moreover from Suc.prems \<open>m \<le> hi\<close> have "\<not> Suc hi < lo" by simp
    moreover have "try_down f lo hi = Some r"
      using Suc.prems \<open>m \<le> hi\<close> by (intro Suc.IH) auto
    ultimately show ?thesis by simp
  qed
qed

lemma take_digit_run:
  assumes "n \<le> length (takeWhile P s)"
  shows "list_all P (take n s) \<and> length (take n s) = n"
proof -
  have "take n s = take n (takeWhile P s)"
    using assms by (metis append_eq_conv_conj min.absorb2 take_append take_take takeWhile_dropWhile_id
        append_take_drop_id length_take min.commute)
  moreover have "list_all P (takeWhile P s)"
    by (simp add: list_all_iff) (meson set_takeWhileD)
  ultimately show ?thesis
    using assms by (auto simp: list_all_iff dest: in_set_takeD)
qed

lemma cve_match_shape:
  assumes "rx_match cve_pattern s = Some n"
  shows "is_cve_id (take n s)"
proof -
  define k2 where "k2 = rx_step (Digits 4 (Some 7)) (\<lambda>s. Some 0)"
  define k1 where "k1 = rx_step (Lit ''-'') k2"
  define k0 where "k0 = rx_step (Digits 4 (Some 4)) k1"
  have m: "rx_match cve_pattern s = rx_step (Lit ''CVE-'') k0 s"
    by (simp add: cve_pattern_def k0_def k1_def k2_def)
  from assms m obtain s1 n1 where s: "s = ''CVE-'' @ s1" and n1: "k0 s1 = Some n1" and n: "n = 4 + n1"
    by (auto simp: prefix_def split: if_splits)
  from n1 obtain a where a: "4 \<le> a" "a \<le> min 4 (length (takeWhile is_digit s1))"
    and "map_option (\<lambda>m. a + m) (k1 (drop a s1)) = Some n1"
    unfolding k0_def by (auto simp: Let_def dest!: try_down_SomeD)
  then obtain m1 where a4: "a = 4" and m1: "k1 (drop 4 s1) = Some m1" and n1': "n1 = 4 + m1"
    by auto
  from m1 obtain s3 m2 where s2: "drop 4 s1 = ''-'' @ s3" and m2: "k2 s3 = Some m2" and m1': "m1 = 1 + m2"
    unfolding k1_def by (auto simp: prefix_def split: if_splits)
  from m2 obtain b where b: "4 \<le> b" "b \<le> min 7 (length (takeWhile is_digit s3))" and bm: "m2 = b"
    unfolding k2_def by (auto simp: Let_def dest!: try_down_SomeD)
  have y: "list_all is_digit (take 4 s1) \<and> length (take 4 s1) = 4"
    using a a4 by (intro take_digit_run) simp
  have d: "list_all is_digit (take b s3) \<and> length (take b s3) = b"
    using b by (intro take_digit_run) simp
  have s1: "s1 = take 4 s1 @ ''-'' @ s3"
    using s2 by (metis append_take_drop_id)
  have "take n s = ''CVE-'' @ take 4 s1 @ ''-'' @ take b s3"
  proof -
    define t where "t = ''CVE-'' @ take 4 s1 @ ''-''"
    have l: "length t = 9" using y by (simp add: t_def)
    have "n = length t + b" using n n1' m1' bm l by simp
    moreover have "s = t @ s3" using s s1 by (simp add: t_def)
    ultimately have "take n s = t @ take b s3" by simp
    then show ?thesis by (simp add: t_def)
  qed
  with y d b show ?thesis
    unfolding is_cve_id_def by (intro exI [of _ "take 4 s1"] exI [of _ "take b s3"]) simp
qed

lemma findall_matches:
  "m \<in> set (findall p s) \<Longrightarrow> \<exists>s' n. suffix s' s \<and> rx_match p s' = Some n \<and> m = take n s'"
proof (induction p s rule: findall.induct)
  case (1 p)
  then show ?case by simp
next
  case (2 p c cs)
  show ?case
  proof (cases "rx_match p (c # cs)")
    case None
    with 2 obtain s' n where "suffix s' cs" "rx_match p s' = Some n" "m = take n s'"
      by auto
    moreover from this have "suffix s' (c # cs)" by (simp add: suffix_Cons)
    ultimately show ?thesis by blast
  next
    case (Some n)
    with "2.prems" consider "m = take n (c # cs)" | "m \<in> set (findall p (drop (n - 1) cs))"
      by auto
    then show ?thesis
    proof cases
      case 1
      moreover have "suffix (c # cs) (c # cs)" by simp
      ultimately show ?thesis using Some by blast
    next
      case 2
      with "2.IH"(2) [OF Some] obtain s' k where
        "suffix s' (drop (n - 1) cs)" "rx_match p s' = Some k" "m = take k s'"
        by blast
      moreover have "suffix (drop (n - 1) cs) (c # cs)"
        by (meson suffix_ConsI suffix_drop)
      ultimately have "suffix s' (c # cs)" "rx_match p s' = Some k" "m = take k s'"
        by (auto simp: suffix_def)
      then show ?thesis by blast
    qed
  qed
qed

lemma findall_cve_ids: "m \<in> set (findall cve_pattern text) \<Longrightarrow> is_cve_id m"
  by (auto dest!: findall_matches intro: cve_match_shape)

subsection \<open>Vulnerability records and extracted versions\<close>

text \<open>
  Claim C7. The vulnerability records are, result by result and in order, one record
  per match of the CVE pattern in the result's title and snippet text, each with the
  match as its id and the severity of that text; every match is \<open>CVE-\<close>, four digits,
  \<open>-\<close> and four to seven digits. The severity of a text is the first of \<open>critical\<close>,
  \<open>high\<close>, \<open>medium\<close>, \<open>low\<close> that occurs in the lower-cased text, and \<open>unknown\<close>
  when none occurs.
\<close>

theorem C7_vulnerability_extraction:
  "vulnerabilities (extract_vulnerability_info results package_name v) =
     concat (map (\<lambda>r. map (vulnerability_of r) (findall cve_pattern (result_text r))) results) \<and>
   (\<forall>r \<in> set results. \<forall>m \<in> set (findall cve_pattern (result_text r)). is_cve_id m) \<and>
   extract_severity text =
     (case find (\<lambda>k. str_contains k (str_lower text)) [''critical'', ''high'', ''medium'', ''low''] of
        Some k \<Rightarrow> k | None \<Rightarrow> ''unknown'') \<and>
   ((\<forall>k \<in> set [''critical'', ''high'', ''medium'', ''low'']. \<not> str_contains k (str_lower text))
      \<longrightarrow> extract_severity text = ''unknown'')"
proof (intro conjI)
  show "vulnerabilities (extract_vulnerability_info results package_name v) =
     concat (map (\<lambda>r. map (vulnerability_of r) (findall cve_pattern (result_text r))) results)"
    by (rule vulnerabilities_eq)
  show "\<forall>r \<in> set results. \<forall>m \<in> set (findall cve_pattern (result_text r)). is_cve_id m"
    by (blast intro: findall_cve_ids)
  show "extract_severity text =
     (case find (\<lambda>k. str_contains k (str_lower text)) [''critical'', ''high'', ''medium'', ''low''] of
        Some k \<Rightarrow> k | None \<Rightarrow> ''unknown'')"
    by (rule extract_severity_find)
  show "(\<forall>k \<in> set [''critical'', ''high'', ''medium'', ''low'']. \<not> str_contains k (str_lower text))
      \<longrightarrow> extract_severity text = ''unknown''"
    by (simp add: extract_severity_def Let_def)
qed

theorem C7_vulnerability_extraction_witness:
  "map (\<lambda>x. (vuln_id x, vuln_severity x))
     (vulnerabilities (extract_vulnerability_info sample_results ''pkg'' ''9.0.1'')) =
     [(''CVE-2023-1234'', ''unknown''), (''CVE-2021-44228'', ''unknown''),
      (''CVE-2020-1234567'', ''high'')] \<and>
   extract_severity (result_text (hd sample_results)) = ''unknown''"
proof -
  have n: "\<forall>k \<in> set [''critical'', ''high'', ''medium'', ''low''].
            \<not> str_contains k (str_lower (result_text (hd sample_results)))"
    by code_simp
  have e: "map (\<lambda>x. (vuln_id x, vuln_severity x))
      (concat (map (\<lambda>r. map (vulnerability_of r) (findall cve_pattern (result_text r)))
         sample_results)) =
     [(''CVE-2023-1234'', ''unknown''), (''CVE-2021-44228'', ''unknown''),
      (''CVE-2020-1234567'', ''high'')]"
    by code_simp
  from C7_vulnerability_extraction [of sample_results "''pkg''" "''9.0.1''" "result_text (hd sample_results)"]
  have "vulnerabilities (extract_vulnerability_info sample_results ''pkg'' ''9.0.1'') =
     concat (map (\<lambda>r. map (vulnerability_of r) (findall cve_pattern (result_text r))) sample_results)"
    and "extract_severity (result_text (hd sample_results)) = ''unknown''"
    using n by blast+
  with e show ?thesis by simp
qed

lemma foldl_versions:
  "foldl (\<lambda>versions result.
                     let text = str_lower (result_text result)
                     in if str_contains (str_lower package_name) text \<and>
                           str_contains (str_lower target_framework) text
                        then (versions \<union> set (findall version3_pattern text))
                               \<union> set (findall version2_pattern text)
                        else versions) V rs =
   V \<union> (\<Union>r \<in> {r \<in> set rs. mentions package_name target_framework r}.
           version_tokens (str_lower (result_text r)))"
  by (induction rs arbitrary: V) (auto simp: Let_def mentions_def version_tokens_def)

lemma finite_tokens:
  "finite (\<Union>r \<in> {r \<in> set rs. mentions package_name target_framework r}.
           version_tokens (str_lower (result_text r)))"
  by (auto simp: version_tokens_def)

text \<open>
  Claim C6. The strings returned are exactly the version tokens (matches of either
  pattern) of the results whose lower-cased text contains the lower-cased package name
  and the lower-cased target; no string is returned twice; and the list is in
  descending order of the strings, compared as strings.
\<close>

theorem C6_extract_versions:
  "set (extract_versions results package_name target_framework) =
     (\<Union>r \<in> {r \<in> set results. mentions package_name target_framework r}.
         version_tokens (str_lower (result_text r))) \<and>
   distinct (extract_versions results package_name target_framework) \<and>
   sorted (rev (extract_versions results package_name target_framework))"
proof -
  have "extract_versions results package_name target_framework =
      rev (sorted_list_of_set
        (\<Union>r \<in> {r \<in> set results. mentions package_name target_framework r}.
            version_tokens (str_lower (result_text r))))"
    unfolding extract_versions_def foldl_versions by (simp add: Let_def)
  then show ?thesis
    using finite_tokens [of results package_name target_framework] by simp
qed

theorem C6_extract_versions_witness:
  "extract_versions sample_results ''PKG'' ''net48'' = [''9.0.1'', ''10.0.0'', ''0.1'', ''0.0'']"
proof -
  have s: "(\<Union>r \<in> {r \<in> set sample_results. mentions ''PKG'' ''net48'' r}.
         version_tokens (str_lower (result_text r))) = set [''9.0.1'', ''10.0.0'', ''0.1'', ''0.0'']"
    by code_simp
  have d: "distinct [''9.0.1'', ''10.0.0'', ''0.1'', ''0.0''] \<and> sorted (rev [''9.0.1'', ''10.0.0'', ''0.1'', ''0.0''])"
    by code_simp
  have u: "xs = ys" if "set xs = set ys" "distinct xs" "sorted (rev xs)" "distinct ys" "sorted (rev ys)"
    for xs ys :: "string list"
  proof -
    have "rev xs = rev ys"
      using that by (intro sorted_distinct_set_unique) auto
    then show ?thesis by simp
  qed
  show ?thesis
    using C6_extract_versions [of sample_results "''PKG''" "''net48''"] d
    unfolding s by (intro u) blast+
qed

subsection \<open>Version tokens and the two version patterns\<close>

lemma dot_not_digit: "\<not> is_digit (CHR ''.'')"
  by (simp add: is_digit_def)

lemma run_length:
  assumes "list_all is_digit x" "no_digit_ahead rest"
  shows "length (takeWhile is_digit (x @ rest)) = length x"
proof -
  have "takeWhile is_digit (x @ rest) = x @ takeWhile is_digit rest"
    using assms(1) by (simp add: list_all_iff takeWhile_append2)
  moreover have "takeWhile is_digit rest = []"
    using assms(2) by (cases rest) (auto simp: no_digit_ahead_def)
  ultimately show ?thesis by simp
qed

lemma lit_step: "rx_step (Lit l) k (l @ rest) = map_option (\<lambda>m. length l + m) (k rest)"
  by simp

lemma digits_step_max:
  assumes "list_all is_digit x" "no_digit_ahead rest" "lo \<le> length x" "k rest = Some m"
  shows "rx_step (Digits lo None) k (x @ rest) = Some (length x + m)"
proof -
  have "try_down (\<lambda>n. map_option (\<lambda>m. n + m) (k (drop n (x @ rest)))) lo (length x)
        = Some (length x + m)"
    using assms(3,4) by (intro try_down_first [where m = "length x"]) auto
  then show ?thesis
    using run_length [OF assms(1,2)] by (simp add: Let_def)
qed

lemma digits_step_backoff:
  assumes "list_all is_digit x" "no_digit_ahead rest" "lo < length x"
    "k rest = None" "k (last x # rest) = Some m"
  shows "rx_step (Digits lo None) k (x @ rest) = Some (length x - 1 + m)"
proof -
  from assms(3) have ne: "x \<noteq> []" by auto
  have d: "drop (length x - 1) (x @ rest) = last x # rest"
    using ne by (metis append_butlast_last_id append_Cons append_Nil append_eq_conv_conj
        drop_append diff_self_eq_0 drop_0 length_butlast append.assoc)
  have "try_down (\<lambda>n. map_option (\<lambda>m. n + m) (k (drop n (x @ rest)))) lo (length x)
        = Some (length x - 1 + m)"
  proof (rule try_down_first [where m = "length x - 1"])
    show "lo \<le> length x - 1" using assms(3) by simp
    show "length x - 1 \<le> length x" by simp
    show "map_option (\<lambda>m. length x - 1 + m) (k (drop (length x - 1) (x @ rest))) =
          Some (length x - 1 + m)"
      using assms(5) d by simp
    show "map_option (\<lambda>m. n + m) (k (drop n (x @ rest))) = None"
      if "length x - 1 < n" "n \<le> length x" for n
    proof -
      from that have "n = length x" by simp
      then show ?thesis using assms(4) by simp
    qed
  qed
  then show ?thesis
    using run_length [OF assms(1,2)] by (simp add: Let_def)
qed

lemma digits_step_fail:
  assumes "list_all is_digit x" "no_digit_ahead rest"
    "\<And>n. lo \<le> n \<Longrightarrow> n \<le> length x \<Longrightarrow> k (drop n (x @ rest)) = None"
  shows "rx_step (Digits lo None) k (x @ rest) = None"
proof -
  have "try_down (\<lambda>n. map_option (\<lambda>m. n + m) (k (drop n (x @ rest)))) lo (length x) = None"
    using assms(3) by (intro try_down_None) simp
  then show ?thesis
    using run_length [OF assms(1,2)] by (simp add: Let_def)
qed

lemma no_digit_ahead_dot: "no_digit_ahead (CHR ''.'' # s)"
  by (simp add: no_digit_ahead_def dot_not_digit)

lemma not_ahead_step:
  "no_dot_ahead s \<Longrightarrow> rx_step (NotAhead ''.'') k s = k s"
  by (cases s) (auto simp: no_dot_ahead_def)

lemma match3_token:
  assumes "digits x" "digits y" "digits z" "no_digit_ahead post"
  shows "rx_match version3_pattern (x @ ''.'' @ y @ ''.'' @ z @ post) =
         Some (length (x @ ''.'' @ y @ ''.'' @ z))"
proof -
  let ?k4 = "rx_step (Digits 1 None) (\<lambda>s. Some 0)"
  let ?k3 = "rx_step (Lit ''.'') ?k4"
  let ?k2 = "rx_step (Digits 1 None) ?k3"
  let ?k1 = "rx_step (Lit ''.'') ?k2"
  from assms have l: "1 \<le> length x" "1 \<le> length y" "1 \<le> length z"
    and d: "list_all is_digit x" "list_all is_digit y" "list_all is_digit z"
    by (auto simp: digits_def Suc_le_eq)
  have 4: "?k4 (z @ post) = Some (length z + 0)"
    using d(3) assms(4) l(3) by (rule digits_step_max) simp
  have 3: "?k3 (''.'' @ z @ post) = Some (1 + length z)"
    unfolding lit_step 4 by simp
  have 2: "?k2 (y @ ''.'' @ z @ post) = Some (length y + (1 + length z))"
    using d(2) _ l(2) 3 by (rule digits_step_max) (simp add: no_digit_ahead_dot)
  have 1: "?k1 (''.'' @ y @ ''.'' @ z @ post) = Some (1 + (length y + (1 + length z)))"
    unfolding lit_step 2 by simp
  have "rx_step (Digits 1 None) ?k1 (x @ ''.'' @ y @ ''.'' @ z @ post) =
        Some (length x + (1 + (length y + (1 + length z))))"
    using d(1) _ l(1) 1 by (rule digits_step_max) (simp add: no_digit_ahead_dot)
  then show ?thesis
    by (simp add: version3_pattern_def)
qed

lemma match2_token:
  assumes "digits y" "digits z" "no_digit_ahead post" "no_dot_ahead post"
  shows "rx_match version2_pattern (y @ ''.'' @ z @ post) = Some (length (y @ ''.'' @ z))"
proof -
  let ?k3 = "rx_step (NotAhead ''.'') (\<lambda>s. Some 0)"
  let ?k2 = "rx_step (Digits 1 None) ?k3"
  let ?k1 = "rx_step (Lit ''.'') ?k2"
  from assms have l: "1 \<le> length y" "1 \<le> length z"
    and d: "list_all is_digit y" "list_all is_digit z"
    by (auto simp: digits_def Suc_le_eq)
  have 3: "?k3 post = Some 0"
    by (simp only: not_ahead_step [OF assms(4)])
  have 2: "?k2 (z @ post) = Some (length z + 0)"
    using d(2) assms(3) l(2) 3 by (rule digits_step_max)
  have 1: "?k1 (''.'' @ z @ post) = Some (1 + length z)"
    unfolding lit_step 2 by simp
  have "rx_step (Digits 1 None) ?k1 (y @ ''.'' @ z @ post) = Some (length y + (1 + length z))"
    using d(1) _ l(1) 1 by (rule digits_step_max) (simp add: no_digit_ahead_dot)
  then show ?thesis
    by (simp add: version2_pattern_def)
qed

lemma match2_backoff:
  assumes "digits x" "digits y" "2 \<le> length y"
  shows "rx_match version2_pattern (x @ ''.'' @ y @ ''.'' @ rest) =
         Some (length (x @ ''.'' @ butlast y))"
proof -
  let ?k3 = "rx_step (NotAhead ''.'') (\<lambda>s. Some 0)"
  let ?k2 = "rx_step (Digits 1 None) ?k3"
  let ?k1 = "rx_step (Lit ''.'') ?k2"
  from assms have l: "1 \<le> length x" "1 < length y"
    and d: "list_all is_digit x" "list_all is_digit y" and ne: "y \<noteq> []"
    by (auto simp: digits_def Suc_le_eq)
  have "is_digit (last y)"
    using d(2) ne by (simp add: list_all_iff)
  then have "last y \<noteq> CHR ''.''"
    using dot_not_digit by auto
  then have a: "?k3 (last y # ''.'' @ rest) = Some 0"
    by simp
  have b: "?k3 (''.'' @ rest) = None"
    by simp
  have 2: "?k2 (y @ ''.'' @ rest) = Some (length y - 1 + 0)"
    using d(2) _ l(2) b a by (rule digits_step_backoff) (simp add: no_digit_ahead_dot)
  have 1: "?k1 (''.'' @ y @ ''.'' @ rest) = Some (1 + (length y - 1))"
    unfolding lit_step 2 by simp
  have "rx_step (Digits 1 None) ?k1 (x @ ''.'' @ y @ ''.'' @ rest) =
        Some (length x + (1 + (length y - 1)))"
    using d(1) _ l(1) 1 by (rule digits_step_max) (simp add: no_digit_ahead_dot)
  then show ?thesis
    by (simp add: version2_pattern_def)
qed

lemma match2_blocked:
  assumes "list_all is_digit a" "is_digit y"
  shows "rx_match version2_pattern (a @ ''.'' @ [y] @ ''.'' @ rest) = None"
proof -
  let ?k3 = "rx_step (NotAhead ''.'') (\<lambda>s. Some 0)"
  let ?k2 = "rx_step (Digits 1 None) ?k3"
  let ?k1 = "rx_step (Lit ''.'') ?k2"
  let ?s = "a @ ''.'' @ [y] @ ''.'' @ rest"
  have 2: "?k2 ([y] @ ''.'' @ rest) = None"
  proof (rule digits_step_fail)
    show "list_all is_digit [y]" using assms(2) by simp
    show "no_digit_ahead (''.'' @ rest)" by (simp add: no_digit_ahead_dot)
    show "?k3 (drop n ([y] @ ''.'' @ rest)) = None" if "1 \<le> n" "n \<le> length [y]" for n
    proof -
      from that have "n = 1" by simp
      then show ?thesis by simp
    qed
  qed
  have "rx_step (Digits 1 None) ?k1 (a @ ''.'' @ [y] @ ''.'' @ rest) = None"
  proof (rule digits_step_fail)
    show "list_all is_digit a" by (rule assms(1))
    show "no_digit_ahead (''.'' @ [y] @ ''.'' @ rest)" by (simp add: no_digit_ahead_dot)
    show "?k1 (drop n ?s) = None" if "1 \<le> n" "n \<le> length a" for n
    proof (cases "n = length a")
      case True
      then have "drop n ?s = ''.'' @ [y] @ ''.'' @ rest" by simp
      then show ?thesis unfolding lit_step using 2 by (simp only: lit_step) simp
    next
      case False
      with that have n: "n < length a" by simp
      then have "drop n ?s = drop n a @ ''.'' @ [y] @ ''.'' @ rest" by simp
      moreover from n obtain c cs where "drop n a = c # cs"
        by (metis Cons_nth_drop_Suc)
      moreover from this assms(1) have "is_digit c"
        by (metis in_set_dropD list.set_intros(1) list_all_iff)
      then have "c \<noteq> CHR ''.''" using dot_not_digit by auto
      ultimately show ?thesis by simp
    qed
  qed
  then show ?thesis
    by (simp add: version2_pattern_def)
qed

subsection \<open>Scanning a text for matches\<close>

lemma rx_match_consumes:
  assumes "\<And>l. Lit l \<in> set p \<Longrightarrow> list_all dot_or_digit l"
    and "rx_match p s = Some n"
  shows "n \<le> length s \<and> list_all dot_or_digit (take n s)"
  using assms
proof (induction p arbitrary: s n)
  case Nil
  then show ?case by simp
next
  case (Cons r p)
  have IH: "m \<le> length t \<and> list_all dot_or_digit (take m t)" if "rx_match p t = Some m" for t m
    using Cons.IH [OF _ that] Cons.prems(1) by simp
  from Cons.prems(2) have step: "rx_step r (rx_match p) s = Some n" by simp
  show ?case
  proof (cases r)
    case (Lit l)
    with step obtain t m where s: "s = l @ t" and m: "rx_match p t = Some m" and n: "n = length l + m"
      by (auto simp: prefix_def split: if_splits)
    have "list_all dot_or_digit l"
      using Cons.prems(1) Lit by simp
    with IH [OF m] show ?thesis
      by (simp add: s n)
  next
    case (Digits lo hi)
    with step obtain a m where a: "a \<le> length (takeWhile is_digit s)"
      and m: "rx_match p (drop a s) = Some m" and n: "n = a + m"
      by (auto simp: Let_def dest!: try_down_SomeD split: option.splits)
    from take_digit_run [OF a] have d: "list_all is_digit (take a s)" "length (take a s) = a"
      by simp_all
    have t: "take n s = take a s @ take m (drop a s)"
      unfolding n by (simp add: take_add)
    from d(2) have "a \<le> length s" by simp
    with IH [OF m] d(1) show ?thesis
      unfolding t by (auto simp: n list_all_iff dot_or_digit_def)
  next
    case (NotAhead l)
    with step have "rx_match p s = Some n"
      by (auto split: if_splits)
    then show ?thesis by (rule IH)
  qed
qed

lemma findall_head:
  assumes "rx_match p s = Some n" "0 < n" "s \<noteq> []"
  shows "findall p s = take n s # findall p (drop n s)"
proof -
  from assms(3) obtain c cs where s: "s = c # cs" by (cases s) auto
  from assms(2) obtain k where n: "n = Suc k" by (cases n) auto
  show ?thesis using assms(1) by (simp add: s n)
qed

lemma findall_skip:
  assumes "\<And>a. a \<noteq> [] \<Longrightarrow> suffix a pre \<Longrightarrow> rx_match p (a @ s) = None"
  shows "findall p (pre @ s) = findall p s"
  using assms
proof (induction pre)
  case Nil
  then show ?case by simp
next
  case (Cons c pre)
  have "rx_match p ((c # pre) @ s) = None"
    by (rule Cons.prems) simp_all
  moreover have "findall p (pre @ s) = findall p s"
    by (rule Cons.IH) (simp add: Cons.prems suffix_Cons)
  ultimately show ?case by simp
qed

lemma findall_reach:
  assumes "\<And>a n. a \<noteq> [] \<Longrightarrow> suffix a pre \<Longrightarrow> rx_match p (a @ s) = Some n \<Longrightarrow> n \<le> length a"
  shows "\<exists>ms. findall p (pre @ s) = ms @ findall p s"
  using assms
proof (induction "length pre" arbitrary: pre rule: less_induct)
  case less
  show ?case
  proof (cases pre)
    case Nil
    then show ?thesis by simp
  next
    case (Cons c cs)
    show ?thesis
    proof (cases "rx_match p (pre @ s)")
      case None
      have "\<exists>ms. findall p (cs @ s) = ms @ findall p s"
      proof (rule less.hyps)
        show "length cs < length pre" using Cons by simp
        show "n \<le> length a" if "a \<noteq> []" "suffix a cs" "rx_match p (a @ s) = Some n" for a n
          using less.prems [OF that(1) _ that(3)] that(2) Cons by (simp add: suffix_Cons)
      qed
      with None Cons show ?thesis by simp
    next
      case (Some n)
      have n: "n \<le> length pre"
        using less.prems [OF _ _ Some] Cons by simp
      have "\<exists>ms. findall p (drop (n - 1) cs @ s) = ms @ findall p s"
      proof (rule less.hyps)
        show "length (drop (n - 1) cs) < length pre" using Cons by simp
        show "k \<le> length a"
          if "a \<noteq> []" "suffix a (drop (n - 1) cs)" "rx_match p (a @ s) = Some k" for a k
        proof -
          have "suffix (drop (n - 1) cs) pre"
            unfolding Cons by (meson suffix_ConsI suffix_drop)
          with that(2) have "suffix a pre"
            by (auto simp: suffix_def)
          then show ?thesis using that(1,3) by (intro less.prems)
        qed
      qed
      moreover have "drop (n - 1) (cs @ s) = drop (n - 1) cs @ s"
        using n Cons by simp
      ultimately show ?thesis
        using Some Cons by auto
    qed
  qed
qed

lemma findall_after_boundary:
  assumes "\<And>l. Lit l \<in> set p \<Longrightarrow> list_all dot_or_digit l"
    and "pre = [] \<or> \<not> dot_or_digit (last pre)"
  shows "\<exists>ms. findall p (pre @ s) = ms @ findall p s"
proof (rule findall_reach)
  fix a n
  assume a: "a \<noteq> []" "suffix a pre" and m: "rx_match p (a @ s) = Some n"
  from a have l: "last a = last pre" and "pre \<noteq> []"
    by (auto simp: suffix_def)
  with assms(2) have nd: "\<not> dot_or_digit (last a)" by simp
  from rx_match_consumes [OF assms(1) m] have c: "list_all dot_or_digit (take n (a @ s))"
    by simp
  show "n \<le> length a"
  proof (rule ccontr)
    assume "\<not> n \<le> length a"
    then have "set a \<subseteq> set (take n (a @ s))" by auto
    with a(1) have "last a \<in> set (take n (a @ s))" by (meson last_in_set subsetD)
    with c nd show False by (simp add: list_all_iff)
  qed
qed

subsection \<open>Fragments of three-component versions\<close>

lemma set_extract_versions:
  "set (extract_versions results package_name target_framework) =
     (\<Union>r \<in> {r \<in> set results. mentions package_name target_framework r}.
         version_tokens (str_lower (result_text r)))"
proof -
  have "extract_versions results package_name target_framework =
      rev (sorted_list_of_set
        (\<Union>r \<in> {r \<in> set results. mentions package_name target_framework r}.
            version_tokens (str_lower (result_text r))))"
    unfolding extract_versions_def foldl_versions by (simp add: Let_def)
  then show ?thesis
    using finite_tokens [of results package_name target_framework] by simp
qed

lemma version_patterns_plain:
  "Lit l \<in> set version3_pattern \<Longrightarrow> list_all dot_or_digit l"
  "Lit l \<in> set version2_pattern \<Longrightarrow> list_all dot_or_digit l"
  by (auto simp: version3_pattern_def version2_pattern_def dot_or_digit_def)

lemma ahead:
  assumes "post = [] \<or> \<not> dot_or_digit (hd post)"
  shows "no_digit_ahead post" "no_dot_ahead post"
  using assms by (cases post; simp add: no_digit_ahead_def no_dot_ahead_def dot_or_digit_def)+

lemma token3_found:
  assumes "digits x" "digits y" "digits z"
    and "pre = [] \<or> \<not> dot_or_digit (last pre)"
    and "post = [] \<or> \<not> dot_or_digit (hd post)"
  shows "x @ ''.'' @ y @ ''.'' @ z \<in> set (findall version3_pattern (pre @ x @ ''.'' @ y @ ''.'' @ z @ post))"
proof -
  let ?tok = "x @ ''.'' @ y @ ''.'' @ z"
  let ?s = "x @ ''.'' @ y @ ''.'' @ z @ post"
  obtain ms where ms: "findall version3_pattern (pre @ ?s) = ms @ findall version3_pattern ?s"
    using findall_after_boundary [OF version_patterns_plain(1) assms(4)] by blast
  have m: "rx_match version3_pattern ?s = Some (length ?tok)"
    using assms(1-3) ahead(1) [OF assms(5)] by (rule match3_token)
  have "findall version3_pattern ?s = take (length ?tok) ?s # findall version3_pattern (drop (length ?tok) ?s)"
    using m by (rule findall_head) simp_all
  moreover have "take (length ?tok) ?s = ?tok"
    by simp
  ultimately show ?thesis
    unfolding ms by simp
qed

lemma token2_head:
  assumes "digits y" "digits z" "post = [] \<or> \<not> dot_or_digit (hd post)"
  shows "y @ ''.'' @ z \<in> set (findall version2_pattern (y @ ''.'' @ z @ post))"
proof -
  let ?tok = "y @ ''.'' @ z"
  let ?s = "y @ ''.'' @ z @ post"
  have m: "rx_match version2_pattern ?s = Some (length ?tok)"
    using assms(1,2) ahead [OF assms(3)] by (rule match2_token)
  have "findall version2_pattern ?s = take (length ?tok) ?s # findall version2_pattern (drop (length ?tok) ?s)"
    using m by (rule findall_head) simp_all
  moreover have "take (length ?tok) ?s = ?tok"
    by simp
  ultimately show ?thesis by simp
qed

lemma token2_found:
  assumes "digits x" "digits y" "digits z"
    and "pre = [] \<or> \<not> dot_or_digit (last pre)"
    and "post = [] \<or> \<not> dot_or_digit (hd post)"
  shows "[last y] @ ''.'' @ z \<in> set (findall version2_pattern (pre @ x @ ''.'' @ y @ ''.'' @ z @ post))"
    and "2 \<le> length y \<Longrightarrow>
         x @ ''.'' @ butlast y \<in> set (findall version2_pattern (pre @ x @ ''.'' @ y @ ''.'' @ z @ post))"
proof -
  let ?s = "x @ ''.'' @ y @ ''.'' @ z @ post"
  let ?t = "[last y] @ ''.'' @ z @ post"
  obtain ms where ms: "findall version2_pattern (pre @ ?s) = ms @ findall version2_pattern ?s"
    using findall_after_boundary [OF version_patterns_plain(2) assms(4)] by blast
  from assms(2) have ne: "y \<noteq> []" and dy: "list_all is_digit y"
    by (simp_all add: digits_def)
  then have dl: "digits [last y]"
    by (simp add: digits_def list_all_iff)
  have t: "[last y] @ ''.'' @ z \<in> set (findall version2_pattern ?t)"
    using token2_head [OF dl assms(3,5)] by simp
  have split: "y = butlast y @ [last y]"
    using ne by simp
  have long: "findall version2_pattern ?s =
        (x @ ''.'' @ butlast y) # findall version2_pattern ?t" if "2 \<le> length y"
  proof -
    let ?n = "length (x @ ''.'' @ butlast y)"
    have m: "rx_match version2_pattern ?s = Some ?n"
      using assms(1,2) that by (rule match2_backoff)
    have s: "?s = (x @ ''.'' @ butlast y) @ ?t"
      using split by (metis append.assoc)
    have "findall version2_pattern ?s = take ?n ?s # findall version2_pattern (drop ?n ?s)"
      using m by (rule findall_head) simp_all
    moreover have "take ?n ?s = x @ ''.'' @ butlast y"
      by (subst s) (simp del: append.assoc append_assoc)
    moreover have "drop ?n ?s = ?t"
      by (subst s) (simp del: append.assoc append_assoc)
    ultimately show ?thesis by simp
  qed
  show "[last y] @ ''.'' @ z \<in> set (findall version2_pattern (pre @ ?s))"
  proof (cases "2 \<le> length y")
    case True
    from long [OF True] t show ?thesis unfolding ms by simp
  next
    case False
    with ne have y: "y = [last y]"
      by (cases y) (auto simp: not_le)
    have "findall version2_pattern ((x @ ''.'') @ ?t) = findall version2_pattern ?t"
    proof (rule findall_skip)
      fix a
      assume "a \<noteq> []" "suffix a (x @ ''.'')"
      then obtain a' where a: "a = a' @ ''.''" and "suffix a' x"
        by auto
      with assms(1) have "list_all is_digit a'"
        by (auto simp: digits_def list_all_iff suffix_def)
      moreover have "is_digit (last y)"
        using dl by (simp add: digits_def)
      ultimately have "rx_match version2_pattern (a' @ ''.'' @ [last y] @ ''.'' @ (z @ post)) = None"
        by (rule match2_blocked)
      then show "rx_match version2_pattern (a @ ?t) = None"
        by (simp add: a)
    qed
    moreover have "?s = (x @ ''.'') @ ?t"
      by (subst y) simp
    ultimately have "findall version2_pattern ?s = findall version2_pattern ?t"
      by (simp only:)
    with t show ?thesis unfolding ms by (simp only: set_append UnI2)
  qed
  show "x @ ''.'' @ butlast y \<in> set (findall version2_pattern (pre @ ?s))" if "2 \<le> length y"
    using long [OF that] unfolding ms by simp
qed

text \<open>
  Claim C10, as the code has it. Let a result mention the package and the target, and
  let its lower-cased text contain a three-component token \<open>x.y.z\<close> that is neither
  preceded nor followed by a digit or a dot. Then \<open>extract_versions\<close> returns
  \<open>x.y.z\<close> and the fragment \<open>d.z\<close>, where \<open>d\<close> is the last digit of \<open>y\<close>: that is \<open>y.z\<close>
  when \<open>y\<close> is a single digit. When \<open>y\<close> has several digits the two-component pattern
  backtracks inside \<open>y\<close>, and the other fragment returned is \<open>x.y'\<close>, with \<open>y'\<close> the
  digits of \<open>y\<close> but the last.
\<close>

theorem C10_version_fragments:
  assumes "r \<in> set results" and "mentions package_name target_framework r"
    and "str_lower (result_text r) = pre @ x @ ''.'' @ y @ ''.'' @ z @ post"
    and "digits x" "digits y" "digits z"
    and "pre = [] \<or> \<not> dot_or_digit (last pre)"
    and "post = [] \<or> \<not> dot_or_digit (hd post)"
  shows "x @ ''.'' @ y @ ''.'' @ z \<in> set (extract_versions results package_name target_framework) \<and>
         [last y] @ ''.'' @ z \<in> set (extract_versions results package_name target_framework) \<and>
         (length y = 1 \<longrightarrow>
            y @ ''.'' @ z \<in> set (extract_versions results package_name target_framework)) \<and>
         (2 \<le> length y \<longrightarrow>
            x @ ''.'' @ butlast y \<in> set (extract_versions results package_name target_framework))"
proof -
  let ?E = "set (extract_versions results package_name target_framework)"
  have sub: "version_tokens (str_lower (result_text r)) \<subseteq> ?E"
    unfolding set_extract_versions using assms(1,2) by blast
  have 3: "x @ ''.'' @ y @ ''.'' @ z \<in> ?E"
    using token3_found [OF assms(4-8)] sub
    unfolding version_tokens_def assms(3) by blast
  have 2: "[last y] @ ''.'' @ z \<in> ?E"
    using token2_found(1) [OF assms(4-8)] sub
    unfolding version_tokens_def assms(3) by blast
  have 1: "y @ ''.'' @ z \<in> ?E" if "length y = 1"
  proof -
    from that have "y = [last y]"
      by (cases y) auto
    with 2 show ?thesis by simp
  qed
  have b: "x @ ''.'' @ butlast y \<in> ?E" if "2 \<le> length y"
    using token2_found(2) [OF assms(4-8) that] sub
    unfolding version_tokens_def assms(3) by blast
  from 3 2 1 b show ?thesis by blast
qed

text \<open>
  The claim as it was written, with \<open>y.z\<close> returned for every token, fails on the text
  \<open>release 1.23.4\<close>: the output holds \<open>1.23.4\<close>, \<open>1.2\<close> and \<open>3.4\<close>, and not \<open>23.4\<close>.
\<close>

theorem C10_counterexample:
  "mentions ''Pkg'' ''net48'' fragment_sample \<and>
   str_lower (result_text fragment_sample) = ''pkg for net48 release '' @ ''1'' @ ''.'' @ ''23'' @ ''.'' @ ''4'' \<and>
   extract_versions [fragment_sample] ''Pkg'' ''net48'' = [''3.4'', ''1.23.4'', ''1.2''] \<and>
   ''23'' @ ''.'' @ ''4'' \<notin> set (extract_versions [fragment_sample] ''Pkg'' ''net48'')"
  by code_simp

theorem C10_version_fragments_witness:
  "''1.23.4'' \<in> set (extract_versions [fragment_sample] ''Pkg'' ''net48'') \<and>
   ''3.4'' \<in> set (extract_versions [fragment_sample] ''Pkg'' ''net48'') \<and>
   ''1.2'' \<in> set (extract_versions [fragment_sample] ''Pkg'' ''net48'')"
proof -
  have a: "fragment_sample \<in> set [fragment_sample]" by simp
  have b: "mentions ''Pkg'' ''net48'' fragment_sample" by code_simp
  have c: "str_lower (result_text fragment_sample) =
           ''pkg for net48 release '' @ ''1'' @ ''.'' @ ''23'' @ ''.'' @ ''4'' @ []"
    by code_simp
  have d: "digits ''1''" "digits ''23''" "digits ''4''" by code_simp+
  have e: "''pkg for net48 release '' = [] \<or> \<not> dot_or_digit (last ''pkg for net48 release '')"
    by code_simp
  have f: "([]::string) = [] \<or> \<not> dot_or_digit (hd [])" by simp
  have g: "(2::nat) \<le> length ''23''" by simp
  from C10_version_fragments [OF a b c d e f] g show ?thesis
    by simp
qed

subsection \<open>Failure paths, stability and the place of the chain check\<close>

text \<open>
  The other paths of the two operations. A transport failure becomes an error envelope.
\<close>

lemma get_compatible_versions_transport_failure:
  "get_compatible_versions parse package_id target_framework current_version (Inl m) =
     Inr (Error (''Failed to fetch compatible versions: '' @ m))"
  by (simp add: get_compatible_versions_def compatible_versions_body_def)

text \<open>
  An entry without a \<^verbatim>\<open>version\<close> key makes \<^verbatim>\<open>Version(None)\<close> raise
  \<^verbatim>\<open>TypeError\<close>, which the second handler of \<open>get_compatible_versions\<close> turns into
  an error envelope: the records of a catalog are taken to carry a version string, as
  the records of the registry do.
\<close>

lemma process_entries_missing_version:
  assumes "\<exists>e \<in> set es. version e = None"
  shows "process_entries parse t es acc = Inl TypeError"
  using assms
proof (induction es arbitrary: acc)
  case Nil
  then show ?case by simp
next
  case (Cons e es)
  show ?case
  proof (cases "version e")
    case None
    then show ?thesis by (simp add: process_entry_def)
  next
    case (Some v)
    with Cons.prems have "\<exists>e \<in> set es. version e = None" by auto
    then have "process_entries parse t es acc' = Inl TypeError" for acc'
      by (rule Cons.IH)
    moreover obtain acc' where "process_entry parse t e acc = Inr acc'"
      using process_entry_ok [of e parse t acc] Some by simp
    ultimately show ?thesis by simp
  qed
qed

lemma process_pages_missing_version:
  assumes "\<exists>e \<in> set (concat data). version e = None"
  shows "process_pages parse t data acc = Inl TypeError"
  using assms
proof (induction data arbitrary: acc)
  case Nil
  then show ?case by simp
next
  case (Cons page data)
  show ?case
  proof (cases "\<exists>e \<in> set page. version e = None")
    case True
    then show ?thesis by (simp add: process_entries_missing_version)
  next
    case False
    with Cons.prems have "\<exists>e \<in> set (concat data). version e = None" by auto
    then have "process_pages parse t data acc' = Inl TypeError" for acc'
      by (rule Cons.IH)
    moreover from False have "\<forall>e \<in> set page. version e \<noteq> None" by auto
    ultimately show ?thesis by (simp add: process_entries_ok)
  qed
qed

lemma get_compatible_versions_missing_version:
  assumes "\<exists>e \<in> set (concat data). version e = None"
  shows "get_compatible_versions parse package_id target_framework current_version (Inr data) =
     Inr (Error (''Unexpected error: '' @ str_exc TypeError))"
  by (simp add: get_compatible_versions_def compatible_versions_body_def
      process_pages_missing_version [OF assms])

text \<open>
  \<open>get_package_versions\<close> has no such handler: with two or more entries, one of them
  without a version, the \<^verbatim>\<open>TypeError\<close> of the sort leaves the operation.
\<close>

lemma collect_versions_eq:
  "collect_versions data =
     map (\<lambda>e. \<lparr>vs_version = version e, vs_published = published e,
               vs_downloads = (case downloads e of None \<Rightarrow> 0 | Some d \<Rightarrow> d)\<rparr>) (concat data)"
proof -
  let ?f = "\<lambda>e. \<lparr>vs_version = version e, vs_published = published e,
               vs_downloads = (case downloads e of None \<Rightarrow> 0 | Some d \<Rightarrow> d)\<rparr>"
  have inner: "foldl (\<lambda>versions version_data. versions @ [?f version_data]) acc es = acc @ map ?f es"
    for acc es
    by (induction es arbitrary: acc) auto
  have "foldl (\<lambda>versions entry. foldl (\<lambda>versions version_data. versions @ [?f version_data])
           versions entry) acc pages = acc @ map ?f (concat pages)" for acc pages
    by (induction pages arbitrary: acc) (auto simp: inner)
  from this [of "[]" data] show ?thesis
    unfolding collect_versions_def by simp
qed

lemma get_package_versions_missing_version:
  assumes "2 \<le> length (concat data)" "\<exists>e \<in> set (concat data). version e = None"
  shows "get_package_versions package_id (Inr data) = Inl TypeError"
proof -
  have "list_ex (\<lambda>x. vs_version x = None) (collect_versions data)"
    using assms(2) by (auto simp: collect_versions_eq list_ex_iff)
  moreover have "2 \<le> length (collect_versions data)"
    using assms(1) by (simp add: collect_versions_eq)
  ultimately show ?thesis
    by (simp add: get_package_versions_def package_versions_body_def sorted_by_version_reverse_def)
qed

text \<open>
  Versions that parse to the same value keep their catalog order.
\<close>

lemma compatible_versions_stable:
  assumes "\<forall>e \<in> set (concat data). version e \<noteq> None"
    and "get_compatible_versions parse package_id target_framework current_version (Inr data) =
         Inr (Success r)"
  shows "filter (\<lambda>v. parse v = Some k) (cv_compatible_versions r) =
         filter (\<lambda>v. parse v = Some k) (matching parse target_framework data)"
proof -
  let ?sel = "List.map_filter (select parse (normalize_framework target_framework)) (concat data)"
  have m: "map fst ?sel = matching parse target_framework data"
    by (simp add: matching_def select_fst)
  have c: "cv_compatible_versions r = sort_reverse (\<lambda>v. the (parse v)) (matching parse target_framework data)"
    using assms(2) unfolding get_compatible_versions_ok [OF assms(1)] Let_def m by auto
  have p: "parse v \<noteq> None" if "v \<in> set (matching parse target_framework data)" for v
    using that unfolding m [symmetric] by (auto dest!: select_parses)
  have "filter (\<lambda>v. parse v = Some k) xs = filter (\<lambda>v. the (parse v) = k) xs"
    if "\<And>v. v \<in> set xs \<Longrightarrow> parse v \<noteq> None" for xs
    using that by (intro filter_cong) auto
  from this [of "matching parse target_framework data"]
       this [of "sort_reverse (\<lambda>v. the (parse v)) (matching parse target_framework data)"]
  show ?thesis
    unfolding c using p by (simp add: set_sort_reverse sort_reverse_stable)
qed

text \<open>
  The chain check does not depend on the order in which the set is visited, and it is
  what decides \<open>is_compatible\<close> when no result gave direct evidence.
\<close>

lemma chain_loop_order:
  "set rs = set rs' \<Longrightarrow> is_compatible_chain t rs = is_compatible_chain t rs'"
  by (simp add: is_compatible_chain_def chain_loop_iff)

lemma extract_java_is_compatible:
  "is_compatible (extract_java_compatibility_info results package_name target_runtime) \<longleftrightarrow>
     (case foldl (java_result_step package_name target_runtime) (False, [], [], {}) results of
        (compatible, evid, recs, runtimes) \<Rightarrow>
          compatible \<or> is_compatible_chain target_runtime (sorted_list_of_set runtimes))"
  by (auto simp: extract_java_compatibility_info_def split: prod.splits)

subsection \<open>The normalizer and the compatibility check at concrete inputs\<close>

theorem C9_normalize_idempotent_witness:
  "normalize_framework (normalize_framework ''.NET-Standard2.0'') = ''netstandard20'' \<and>
   normalize_framework (normalize_framework ''4.5'') = ''net45'' \<and>
   normalize_framework (normalize_framework [CHR 0xC9, CHR ''.'', CHR ''1'']) =
     ''net'' @ [CHR 0xE9, CHR ''1''] \<and>
   normalize_with lower_latin1 (normalize_with lower_latin1 [201, 46, 49]) =
     [110, 101, 116, 233, 49]"
proof -
  have a: "normalize_framework ''.NET-Standard2.0'' = ''netstandard20''"
    by code_simp
  have b: "normalize_framework ''4.5'' = ''net45''"
    by code_simp
  have c: "normalize_framework [CHR 0xC9, CHR ''.'', CHR ''1''] = ''net'' @ [CHR 0xE9, CHR ''1'']"
    by code_simp
  have d: "normalize_with lower_latin1 [201, 46, 49] = [110, 101, 116, 233, 49]"
  proof -
    have "[201, 46, 49] = map (of_char :: char \<Rightarrow> nat) [CHR 0xC9, CHR ''.'', CHR ''1'']"
      by simp
    then have "normalize_with lower_latin1 [201, 46, 49] =
        map of_char (normalize_framework [CHR 0xC9, CHR ''.'', CHR ''1''])"
      by (simp only: normalize_framework_latin1)
    also have "\<dots> = [110, 101, 116, 233, 49]"
      unfolding c by simp
    finally show ?thesis .
  qed
  have h: "\<forall>a b. set b \<subseteq> set (lower_latin1 a) \<union> {110, 101, 116} \<longrightarrow> lower_latin1 b = b"
    by (intro allI impI) (rule lower_latin1_stable)
  have 1: "normalize_framework (normalize_framework ''.NET-Standard2.0'') =
        normalize_framework ''.NET-Standard2.0''"
    using C9_normalize_idempotent [of "''.NET-Standard2.0''"] by (rule conjunct1)
  have 2: "normalize_framework (normalize_framework ''4.5'') = normalize_framework ''4.5''"
    using C9_normalize_idempotent [of "''4.5''"] by (rule conjunct1)
  have 3: "normalize_framework (normalize_framework [CHR 0xC9, CHR ''.'', CHR ''1'']) =
        normalize_framework [CHR 0xC9, CHR ''.'', CHR ''1'']"
    using C9_normalize_idempotent [of "[CHR 0xC9, CHR ''.'', CHR ''1'']"] by (rule conjunct1)
  have 4: "normalize_with lower_latin1 (normalize_with lower_latin1 [201, 46, 49]) =
        normalize_with lower_latin1 [201, 46, 49]"
    by (rule mp [OF conjunct2 [OF conjunct2 [OF conjunct2
        [OF C9_normalize_idempotent [of "[]" lower_latin1 "[201, 46, 49]"]]]] h])
  show ?thesis
    by (intro conjI) (rule trans [OF 1 a], rule trans [OF 2 b], rule trans [OF 3 c], rule trans [OF 4 d])
qed

theorem C2_is_framework_compatible_iff_witness:
  "is_framework_compatible ''net48'' {''net48''} \<and>
   is_framework_compatible ''Net4.5'' {''net48''}"
proof -
  have "normalize_framework ''net48'' \<in> {''net48''}"
    by code_simp
  then have a: "is_framework_compatible ''net48'' {''net48''}"
    by (rule iffD2 [OF C2_is_framework_compatible_iff, OF disjI1])
  have r: "map_of FRAMEWORK_COMPATIBILITY ''net48'' = Some chain_net48"
    by code_simp
  have t: "normalize_framework ''Net4.5'' \<in> set chain_net48"
    by code_simp
  have f: "''net48'' \<in> set chain_net48 \<and> ''net48'' \<in> {''net48''}"
    by code_simp
  have "\<exists>k row. map_of FRAMEWORK_COMPATIBILITY k = Some row \<and>
          normalize_framework ''Net4.5'' \<in> set row \<and> (\<exists>f. f \<in> set row \<and> f \<in> {''net48''})"
    by (rule exI [of _ "''net48''"], rule exI [of _ chain_net48])
       (intro conjI r t exI [of _ "''net48''"] conjunct1 [OF f] conjunct2 [OF f])
  then have b: "is_framework_compatible ''Net4.5'' {''net48''}"
    by (rule iffD2 [OF C2_is_framework_compatible_iff, OF disjI2])
  from a b show ?thesis by (rule conjI)
qed

subsection \<open>A fragment that coincides with the suffix\<close>

text \<open>
  Nothing is said about strings that are not returned: on \<open>release 23.23.2\<close> the
  fragment \<open>x.y'\<close> is \<open>23.2\<close>, which is also \<open>y.z\<close>.
\<close>

lemma fragment_coincidence:
  "extract_versions [fragment_sample2] ''Pkg'' ''net48'' = [''3.2'', ''23.23.2'', ''23.2'']"
  by code_simp

end
